theory Spec2Isabelle
  imports Complex_Main "HOL-Library.Word"
begin

section \<open>Values of a numpy float64 array\<close>

text \<open>
  The vectors of \<^verbatim>\<open>pyrm/optimizers.py\<close> are one-dimensional numpy arrays of float64.
  An element is a finite number or one of the three special values the code
  branches on: \<^verbatim>\<open>nan\<close>, \<^verbatim>\<open>inf\<close> and \<^verbatim>\<open>-inf\<close>. Finite values are modelled as
  reals and their arithmetic is exact: rounding error, overflow and the sign of
  zero are outside the model (a zero divisor is taken as \<^verbatim>\<open>+0.0\<close>). The special
  values follow IEEE 754, which numpy implements: \<^verbatim>\<open>0/0\<close>, \<^verbatim>\<open>inf - inf\<close>,
  \<^verbatim>\<open>0 * inf\<close> and \<^verbatim>\<open>inf / inf\<close> are \<^verbatim>\<open>nan\<close>, a non-zero number divided by zero
  is an infinity, and \<^verbatim>\<open>nan\<close> is absorbing. numpy warns on these and does not raise.
  Arrays of int64, whose arithmetic wraps, come in the section on float64 and
  int64 arrays; the definitions before it are the float64 case.
\<close>

datatype npfloat = Fin real | PInf | NInf | NaN

fun isnan :: "npfloat \<Rightarrow> bool" where
  "isnan NaN = True"
| "isnan _ = False"

fun fneg :: "npfloat \<Rightarrow> npfloat" where
  "fneg (Fin a) = Fin (- a)"
| "fneg PInf = NInf"
| "fneg NInf = PInf"
| "fneg NaN = NaN"

fun fadd :: "npfloat \<Rightarrow> npfloat \<Rightarrow> npfloat" where
  "fadd (Fin a) (Fin b) = Fin (a + b)"
| "fadd (Fin a) PInf = PInf"
| "fadd (Fin a) NInf = NInf"
| "fadd PInf (Fin b) = PInf"
| "fadd PInf PInf = PInf"
| "fadd PInf NInf = NaN"
| "fadd NInf (Fin b) = NInf"
| "fadd NInf PInf = NaN"
| "fadd NInf NInf = NInf"
| "fadd NaN _ = NaN"
| "fadd _ NaN = NaN"

definition fsub :: "npfloat \<Rightarrow> npfloat \<Rightarrow> npfloat" where
  "fsub x y = fadd x (fneg y)"

fun fmul :: "npfloat \<Rightarrow> npfloat \<Rightarrow> npfloat" where
  "fmul (Fin a) (Fin b) = Fin (a * b)"
| "fmul (Fin a) PInf = (if a = 0 then NaN else if 0 < a then PInf else NInf)"
| "fmul (Fin a) NInf = (if a = 0 then NaN else if 0 < a then NInf else PInf)"
| "fmul PInf (Fin b) = (if b = 0 then NaN else if 0 < b then PInf else NInf)"
| "fmul NInf (Fin b) = (if b = 0 then NaN else if 0 < b then NInf else PInf)"
| "fmul PInf PInf = PInf"
| "fmul PInf NInf = NInf"
| "fmul NInf PInf = NInf"
| "fmul NInf NInf = PInf"
| "fmul NaN _ = NaN"
| "fmul _ NaN = NaN"

fun fdiv :: "npfloat \<Rightarrow> npfloat \<Rightarrow> npfloat" where
  "fdiv (Fin a) (Fin b) =
     (if b = 0 then (if a = 0 then NaN else if 0 < a then PInf else NInf)
      else Fin (a / b))"
| "fdiv (Fin a) PInf = Fin 0"
| "fdiv (Fin a) NInf = Fin 0"
| "fdiv PInf (Fin b) = (if 0 \<le> b then PInf else NInf)"
| "fdiv NInf (Fin b) = (if 0 \<le> b then NInf else PInf)"
| "fdiv PInf PInf = NaN"
| "fdiv PInf NInf = NaN"
| "fdiv NInf PInf = NaN"
| "fdiv NInf NInf = NaN"
| "fdiv NaN _ = NaN"
| "fdiv _ NaN = NaN"

text \<open>\<^verbatim>\<open>np.sqrt\<close>: \<^verbatim>\<open>nan\<close> on a negative argument.\<close>

fun fsqrt :: "npfloat \<Rightarrow> npfloat" where
  "fsqrt (Fin a) = (if a < 0 then NaN else Fin (sqrt a))"
| "fsqrt PInf = PInf"
| "fsqrt NInf = NaN"
| "fsqrt NaN = NaN"

text \<open>The comparisons \<^verbatim>\<open>x < 0\<close>, \<^verbatim>\<open>x == 0\<close> and \<^verbatim>\<open>x >= 0\<close>; each is false on \<^verbatim>\<open>nan\<close>.\<close>

fun flt0 :: "npfloat \<Rightarrow> bool" where
  "flt0 (Fin a) = (a < 0)"
| "flt0 NInf = True"
| "flt0 _ = False"

fun feq0 :: "npfloat \<Rightarrow> bool" where
  "feq0 (Fin a) = (a = 0)"
| "feq0 _ = False"

fun fge0 :: "npfloat \<Rightarrow> bool" where
  "fge0 (Fin a) = (0 \<le> a)"
| "fge0 PInf = True"
| "fge0 _ = False"

text \<open>
  \<^verbatim>\<open>np.round\<close> rounds to the nearest integer and a tie to the even neighbour; the
  special values pass through.
\<close>

definition rint :: "real \<Rightarrow> real" where
  "rint x =
     (let f = \<lfloor>x\<rfloor>; d = x - of_int f
      in if d < 1 / 2 then of_int f
         else if 1 / 2 < d then of_int (f + 1)
         else if even f then of_int f else of_int (f + 1))"

fun fround :: "npfloat \<Rightarrow> npfloat" where
  "fround (Fin a) = Fin (rint a)"
| "fround x = x"

section \<open>The numpy array operations the optimizers use\<close>

datatype py_error = ValueError | IndexError

type_synonym ndarray = "npfloat list"

text \<open>\<^verbatim>\<open>a.sum()\<close>; the sum of the empty array is 0.\<close>

definition np_sum :: "ndarray \<Rightarrow> npfloat" where
  "np_sum xs = foldl fadd (Fin 0) xs"

text \<open>
  \<^verbatim>\<open>a.cumsum()\<close> on a float64 array: the running sums, starting from the first
  element. \<^verbatim>\<open>cumsum\<close> keeps the dtype of \<open>a\<close>; on an int64 array it is
  \<open>np_cumsum_int64\<close> below, which wraps.
\<close>

fun cumsum_from :: "npfloat \<Rightarrow> ndarray \<Rightarrow> ndarray" where
  "cumsum_from acc [] = []"
| "cumsum_from acc (x # xs) = fadd acc x # cumsum_from (fadd acc x) xs"

fun np_cumsum :: "ndarray \<Rightarrow> ndarray" where
  "np_cumsum [] = []"
| "np_cumsum (x # xs) = x # cumsum_from x xs"

text \<open>
  \<^verbatim>\<open>a * b\<close> on one-dimensional arrays: element by element when the lengths
  agree, an array of length one is broadcast along the other, and any other pair
  of lengths raises \<^verbatim>\<open>ValueError\<close> (operands could not be broadcast together).
\<close>

definition np_multiply :: "ndarray \<Rightarrow> ndarray \<Rightarrow> py_error + ndarray" where
  "np_multiply a b =
     (if length a = length b then Inr (map2 fmul a b)
      else if length a = 1 then Inr (map (fmul (hd a)) b)
      else if length b = 1 then Inr (map (\<lambda>x. fmul x (hd b)) a)
      else Inl ValueError)"

text \<open>\<^verbatim>\<open>np.all(a == 0)\<close>; true on the empty array.\<close>

definition np_all_zero :: "ndarray \<Rightarrow> bool" where
  "np_all_zero a = list_all feq0 a"

text \<open>\<^verbatim>\<open>np.round(a)\<close>.\<close>

definition np_round :: "ndarray \<Rightarrow> ndarray" where
  "np_round a = map fround a"

text \<open>\<^verbatim>\<open>y[y < 0] = 0\<close> and \<^verbatim>\<open>y[np.isnan(y)] = 0\<close>, as the new content of \<open>y\<close>.\<close>

definition clamp_negative :: "ndarray \<Rightarrow> ndarray" where
  "clamp_negative y = map (\<lambda>v. if flt0 v then Fin 0 else v) y"

definition clamp_nan :: "ndarray \<Rightarrow> ndarray" where
  "clamp_nan y = map (\<lambda>v. if isnan v then Fin 0 else v) y"

text \<open>
  \<^verbatim>\<open>a[idx]\<close> with an integer index array (a gather into a new array);
  \<^verbatim>\<open>IndexError\<close> when an index is out of bounds.
\<close>

definition np_take :: "ndarray \<Rightarrow> nat list \<Rightarrow> py_error + ndarray" where
  "np_take a idx =
     (if list_all (\<lambda>i. i < length a) idx then Inr (map (\<lambda>i. a ! i) idx)
      else Inl IndexError)"

text \<open>\<^verbatim>\<open>np.where(~np.isnan(a))[0]\<close>: the indices of the numeric entries, ascending.\<close>

definition np_where_not_nan :: "ndarray \<Rightarrow> nat list" where
  "np_where_not_nan a = filter (\<lambda>i. \<not> isnan (a ! i)) [0..<length a]"

section \<open>scipy's \<^verbatim>\<open>norm.ppf\<close>\<close>

text \<open>
  \<^verbatim>\<open>scipy.stats.norm.ppf\<close> is the inverse of the standard normal distribution
  function. It is a library function: its values strictly between 0 and 1 are the
  parameter \<open>probit\<close> of everything below, and what it returns elsewhere is
  written out: \<^verbatim>\<open>-inf\<close> at 0, \<^verbatim>\<open>inf\<close> at 1, and \<^verbatim>\<open>nan\<close> outside the unit
  interval and on \<^verbatim>\<open>nan\<close>.
\<close>

fun norm_ppf :: "(real \<Rightarrow> real) \<Rightarrow> npfloat \<Rightarrow> npfloat" where
  "norm_ppf probit (Fin p) =
     (if p < 0 \<or> 1 < p then NaN
      else if p = 0 then NInf
      else if p = 1 then PInf
      else Fin (probit p))"
| "norm_ppf probit _ = NaN"

section \<open>EMSRb\<close>

text \<open>
  The body of the loop \<^verbatim>\<open>for j in range(1, len(fares))\<close>, for one \<open>j\<close>: the new
  content of \<open>y\<close> after \<^verbatim>\<open>y[j-1] = mu + z_alpha*sigma\<close>, or the error the product
  \<^verbatim>\<open>demands[:j]*fares[:j]\<close> raises.
\<close>

definition EMSRb_body ::
  "(real \<Rightarrow> real) \<Rightarrow> ndarray \<Rightarrow> ndarray \<Rightarrow> ndarray \<Rightarrow> nat \<Rightarrow> ndarray \<Rightarrow> py_error + ndarray" where
  "EMSRb_body probit fares demands sigmas j y =
     (let S_j = np_sum (take j demands)
      in case np_multiply (take j demands) (take j fares) of
           Inl e \<Rightarrow> Inl e
         | Inr revenue \<Rightarrow>
             (let p_j_bar = fdiv (np_sum revenue) (np_sum (take j demands));
                  p_j_plus_1 = fares ! j;
                  z_alpha = norm_ppf probit (fsub (Fin 1) (fdiv p_j_plus_1 p_j_bar));
                  sigma = fsqrt (np_sum (map (\<lambda>s. fmul s s) (take j sigmas)));
                  mu = S_j
              in Inr (y[j - 1 := fadd mu (fmul z_alpha sigma)])))"

fun EMSRb_loop ::
  "(real \<Rightarrow> real) \<Rightarrow> ndarray \<Rightarrow> ndarray \<Rightarrow> ndarray \<Rightarrow> nat list \<Rightarrow> ndarray \<Rightarrow> py_error + ndarray" where
  "EMSRb_loop probit fares demands sigmas [] y = Inr y"
| "EMSRb_loop probit fares demands sigmas (j # js) y =
     (case EMSRb_body probit fares demands sigmas j y of
        Inl e \<Rightarrow> Inl e
      | Inr y' \<Rightarrow> EMSRb_loop probit fares demands sigmas js y')"

text \<open>
  The vector \<open>y\<close> when the loop has ended, before \<^verbatim>\<open>y[y < 0] = 0\<close>: the protection
  levels before clamping.
\<close>

definition EMSRb_levels ::
  "(real \<Rightarrow> real) \<Rightarrow> ndarray \<Rightarrow> ndarray \<Rightarrow> ndarray \<Rightarrow> py_error + ndarray" where
  "EMSRb_levels probit fares demands sigmas =
     EMSRb_loop probit fares demands sigmas [1..<length fares]
       (replicate (length fares - 1) (Fin 0))"

text \<open>
  \<^verbatim>\<open>sigmas is None or np.all(sigmas == 0)\<close>: the deterministic mode.
\<close>

definition deterministic :: "ndarray option \<Rightarrow> bool" where
  "deterministic sigmas = (case sigmas of None \<Rightarrow> True | Some s \<Rightarrow> np_all_zero s)"

text \<open>
  \<^verbatim>\<open>EMSRb(fares, demands, sigmas=None)\<close>. \<^verbatim>\<open>np.zeros(len(fares) - 1)\<close> raises
  \<^verbatim>\<open>ValueError\<close> (negative dimensions are not allowed) on an empty \<open>fares\<close>. The
  two branches of the \<^verbatim>\<open>if\<close> are \<open>EMSRb_deterministic\<close> and \<open>EMSRb_gaussian\<close>,
  each up to the \<^verbatim>\<open>return\<close>.
\<close>

definition EMSRb_deterministic :: "ndarray \<Rightarrow> py_error + ndarray" where
  "EMSRb_deterministic demands = Inr (Fin 0 # np_round (butlast (np_cumsum demands)))"

definition EMSRb_gaussian ::
  "(real \<Rightarrow> real) \<Rightarrow> ndarray \<Rightarrow> ndarray \<Rightarrow> ndarray \<Rightarrow> py_error + ndarray" where
  "EMSRb_gaussian probit fares demands sigmas =
     (case EMSRb_levels probit fares demands sigmas of
        Inl e \<Rightarrow> Inl e
      | Inr y \<Rightarrow> Inr (Fin 0 # np_round (clamp_nan (clamp_negative y))))"

definition EMSRb ::
  "(real \<Rightarrow> real) \<Rightarrow> ndarray \<Rightarrow> ndarray \<Rightarrow> ndarray option \<Rightarrow> py_error + ndarray" where
  "EMSRb probit fares demands sigmas =
     (if length fares = 0 then Inl ValueError
      else case sigmas of
             None \<Rightarrow> EMSRb_deterministic demands
           | Some s \<Rightarrow>
               if np_all_zero s then EMSRb_deterministic demands
               else EMSRb_gaussian probit fares demands s)"

subsection \<open>The Gaussian protection level in the words of the specification\<close>

text \<open>
  For a boundary \<open>j\<close>: \<open>S_j\<close> is the sum of \<^verbatim>\<open>demands[0:j]\<close>, \<open>p_bar_j\<close> is
  \<^verbatim>\<open>sum(demands[0:j] * fares[0:j]) / sum(demands[0:j])\<close>, \<open>sigma_j\<close> is the square
  root of the sum of the squares of \<^verbatim>\<open>sigmas[0:j]\<close>, and the level is
  \<open>S_j + z * sigma_j\<close> with \<open>z\<close> the inverse normal distribution function at
  \<open>1 - fares[j] / p_bar_j\<close>. The product of the two slices is taken element by
  element.
\<close>

definition spec_S :: "ndarray \<Rightarrow> nat \<Rightarrow> npfloat" where
  "spec_S demands j = np_sum (take j demands)"

definition spec_p_bar :: "ndarray \<Rightarrow> ndarray \<Rightarrow> nat \<Rightarrow> npfloat" where
  "spec_p_bar fares demands j =
     fdiv (np_sum (map (\<lambda>i. fmul (demands ! i) (fares ! i)) [0..<j])) (spec_S demands j)"

definition spec_sigma :: "ndarray \<Rightarrow> nat \<Rightarrow> npfloat" where
  "spec_sigma sigmas j = fsqrt (np_sum (map (\<lambda>s. fmul s s) (take j sigmas)))"

definition spec_level ::
  "(real \<Rightarrow> real) \<Rightarrow> ndarray \<Rightarrow> ndarray \<Rightarrow> ndarray \<Rightarrow> nat \<Rightarrow> npfloat" where
  "spec_level probit fares demands sigmas j =
     fadd (spec_S demands j)
       (fmul (norm_ppf probit (fsub (Fin 1) (fdiv (fares ! j) (spec_p_bar fares demands j))))
          (spec_sigma sigmas j))"

section \<open>EMSRb on float64 and int64 arrays\<close>

text \<open>
  numpy keeps the dtype of its arguments and \<open>EMSRb\<close> converts nothing. Here an
  array is float64 or int64, numpy's dtypes for Python floats and ints. The rules
  of numpy on them: arithmetic on two int64 operands is int64 and wraps modulo
  \<open>2^64\<close>, in \<^verbatim>\<open>+\<close>, \<^verbatim>\<open>*\<close>, \<^verbatim>\<open>**2\<close>, \<^verbatim>\<open>sum\<close> and \<^verbatim>\<open>cumsum\<close>; with a float64
  operand the integer is converted to float64; \<^verbatim>\<open>/\<close>, \<^verbatim>\<open>np.sqrt\<close> and \<^verbatim>\<open>norm.ppf\<close>
  give float64; \<^verbatim>\<open>np.round\<close> returns an int64 array as it is; \<^verbatim>\<open>np.hstack((0, a))\<close>
  has the dtype of \<open>a\<close>; and \<open>y\<close>, which \<^verbatim>\<open>np.zeros\<close> creates, is float64 whatever
  the arguments are. The conversion of an int64 to float64 is taken as exact,
  like the float arithmetic. The definitions named \<open>_dt\<close> follow \<open>EMSRb\<close> statement
  by statement under these rules.
\<close>

type_synonym int64 = "64 word"

datatype nparray = Float64 ndarray | Int64 "int64 list"

datatype npscalar = F npfloat | I int64

text \<open>The value of an int64 as a float64, and of a scalar or an array of either dtype.\<close>

definition int64_to_float :: "int64 \<Rightarrow> npfloat" where
  "int64_to_float w = Fin (real_of_int (sint w))"

fun to_float :: "npscalar \<Rightarrow> npfloat" where
  "to_float (F x) = x"
| "to_float (I w) = int64_to_float w"

fun as_float64 :: "nparray \<Rightarrow> ndarray" where
  "as_float64 (Float64 a) = a"
| "as_float64 (Int64 a) = map int64_to_float a"

text \<open>\<^verbatim>\<open>len(a)\<close>, \<^verbatim>\<open>a[:j]\<close>, \<^verbatim>\<open>a[j]\<close> and \<^verbatim>\<open>a.sum()\<close>; the last three keep the dtype.\<close>

fun np_len :: "nparray \<Rightarrow> nat" where
  "np_len (Float64 a) = length a"
| "np_len (Int64 a) = length a"

fun np_slice :: "nat \<Rightarrow> nparray \<Rightarrow> nparray" where
  "np_slice j (Float64 a) = Float64 (take j a)"
| "np_slice j (Int64 a) = Int64 (take j a)"

fun np_item :: "nparray \<Rightarrow> nat \<Rightarrow> npscalar" where
  "np_item (Float64 a) j = F (a ! j)"
| "np_item (Int64 a) j = I (a ! j)"

fun np_sum_dt :: "nparray \<Rightarrow> npscalar" where
  "np_sum_dt (Float64 a) = F (np_sum a)"
| "np_sum_dt (Int64 a) = I (foldl (+) 0 a)"

text \<open>
  \<^verbatim>\<open>a * b\<close>: the shapes are broadcast as in \<open>np_multiply\<close>; the result is int64,
  with wrapping products, when both arrays are int64, and float64 otherwise.
\<close>

definition np_multiply_int64 :: "int64 list \<Rightarrow> int64 list \<Rightarrow> py_error + int64 list" where
  "np_multiply_int64 a b =
     (if length a = length b then Inr (map2 (*) a b)
      else if length a = 1 then Inr (map ((*) (hd a)) b)
      else if length b = 1 then Inr (map (\<lambda>x. x * hd b) a)
      else Inl ValueError)"

fun np_multiply_dt :: "nparray \<Rightarrow> nparray \<Rightarrow> py_error + nparray" where
  "np_multiply_dt (Int64 a) (Int64 b) = map_sum id Int64 (np_multiply_int64 a b)"
| "np_multiply_dt a b = map_sum id Float64 (np_multiply (as_float64 a) (as_float64 b))"

text \<open>\<^verbatim>\<open>a**2\<close> and \<^verbatim>\<open>np.all(a == 0)\<close>.\<close>

fun np_square :: "nparray \<Rightarrow> nparray" where
  "np_square (Float64 a) = Float64 (map (\<lambda>s. fmul s s) a)"
| "np_square (Int64 a) = Int64 (map (\<lambda>s. s * s) a)"

fun np_all_zero_dt :: "nparray \<Rightarrow> bool" where
  "np_all_zero_dt (Float64 a) = np_all_zero a"
| "np_all_zero_dt (Int64 a) = list_all (\<lambda>w. w = 0) a"

text \<open>\<^verbatim>\<open>a.cumsum()\<close> on an int64 array: the running sums wrap.\<close>

fun cumsum_from_int64 :: "int64 \<Rightarrow> int64 list \<Rightarrow> int64 list" where
  "cumsum_from_int64 acc [] = []"
| "cumsum_from_int64 acc (x # xs) = (acc + x) # cumsum_from_int64 (acc + x) xs"

fun np_cumsum_int64 :: "int64 list \<Rightarrow> int64 list" where
  "np_cumsum_int64 [] = []"
| "np_cumsum_int64 (x # xs) = x # cumsum_from_int64 x xs"

text \<open>
  The deterministic branch with the \<^verbatim>\<open>return\<close>: the result has the dtype of
  \<open>demands\<close>, and on int64 there is nothing to round.
\<close>

fun EMSRb_deterministic_dt :: "nparray \<Rightarrow> py_error + nparray" where
  "EMSRb_deterministic_dt (Float64 demands) =
     Inr (Float64 (Fin 0 # np_round (butlast (np_cumsum demands))))"
| "EMSRb_deterministic_dt (Int64 demands) =
     Inr (Int64 (0 # butlast (np_cumsum_int64 demands)))"

text \<open>
  The body of the loop. \<open>S_j\<close> has the dtype of \<open>demands\<close>; the quotients, \<open>z_alpha\<close>
  and \<open>sigma\<close> are float64, and so is the value written to \<open>y\<close>.
\<close>

definition EMSRb_body_dt ::
  "(real \<Rightarrow> real) \<Rightarrow> nparray \<Rightarrow> nparray \<Rightarrow> nparray \<Rightarrow> nat \<Rightarrow> ndarray \<Rightarrow> py_error + ndarray" where
  "EMSRb_body_dt probit fares demands sigmas j y =
     (let S_j = np_sum_dt (np_slice j demands)
      in case np_multiply_dt (np_slice j demands) (np_slice j fares) of
           Inl e \<Rightarrow> Inl e
         | Inr revenue \<Rightarrow>
             (let p_j_bar = fdiv (to_float (np_sum_dt revenue))
                              (to_float (np_sum_dt (np_slice j demands)));
                  p_j_plus_1 = np_item fares j;
                  z_alpha = norm_ppf probit (fsub (Fin 1) (fdiv (to_float p_j_plus_1) p_j_bar));
                  sigma = fsqrt (to_float (np_sum_dt (np_square (np_slice j sigmas))));
                  mu = S_j
              in Inr (y[j - 1 := fadd (to_float mu) (fmul z_alpha sigma)])))"

fun EMSRb_loop_dt ::
  "(real \<Rightarrow> real) \<Rightarrow> nparray \<Rightarrow> nparray \<Rightarrow> nparray \<Rightarrow> nat list \<Rightarrow> ndarray \<Rightarrow> py_error + ndarray" where
  "EMSRb_loop_dt probit fares demands sigmas [] y = Inr y"
| "EMSRb_loop_dt probit fares demands sigmas (j # js) y =
     (case EMSRb_body_dt probit fares demands sigmas j y of
        Inl e \<Rightarrow> Inl e
      | Inr y' \<Rightarrow> EMSRb_loop_dt probit fares demands sigmas js y')"

text \<open>The Gaussian branch with the \<^verbatim>\<open>return\<close>, and \<open>EMSRb\<close> itself.\<close>

definition EMSRb_gaussian_dt ::
  "(real \<Rightarrow> real) \<Rightarrow> nparray \<Rightarrow> nparray \<Rightarrow> nparray \<Rightarrow> py_error + nparray" where
  "EMSRb_gaussian_dt probit fares demands sigmas =
     (case EMSRb_loop_dt probit fares demands sigmas [1..<np_len fares]
             (replicate (np_len fares - 1) (Fin 0)) of
        Inl e \<Rightarrow> Inl e
      | Inr y \<Rightarrow> Inr (Float64 (Fin 0 # np_round (clamp_nan (clamp_negative y)))))"

definition EMSRb_dt ::
  "(real \<Rightarrow> real) \<Rightarrow> nparray \<Rightarrow> nparray \<Rightarrow> nparray option \<Rightarrow> py_error + nparray" where
  "EMSRb_dt probit fares demands sigmas =
     (if np_len fares = 0 then Inl ValueError
      else case sigmas of
             None \<Rightarrow> EMSRb_deterministic_dt demands
           | Some s \<Rightarrow>
               if np_all_zero_dt s then EMSRb_deterministic_dt demands
               else EMSRb_gaussian_dt probit fares demands s)"

text \<open>
  The mode test as a predicate; an array whose elements are all at least 0; and
  an int64 array whose elements without the last sum to less than \<open>2^63\<close> as
  integers, so that none of the running sums \<^verbatim>\<open>a.cumsum()[:-1]\<close> wraps when the
  elements are at least 0.
\<close>

definition deterministic_dt :: "nparray option \<Rightarrow> bool" where
  "deterministic_dt sigmas = (case sigmas of None \<Rightarrow> True | Some s \<Rightarrow> np_all_zero_dt s)"

fun np_ge0 :: "nparray \<Rightarrow> bool" where
  "np_ge0 (Float64 a) = list_all fge0 a"
| "np_ge0 (Int64 a) = list_all (\<lambda>w. 0 \<le> sint w) a"

fun no_wrap :: "nparray \<Rightarrow> bool" where
  "no_wrap (Float64 a) = True"
| "no_wrap (Int64 a) = (sum_list (map sint (butlast a)) < 2 ^ 63)"

section \<open>EMSRb\_MR\<close>

text \<open>
  Modelled from the spec: \<^verbatim>\<open>fill_nan\<close> of \<^verbatim>\<open>pyrm/helpers.py\<close> is not among the
  sources. The specification describes it as the re-expansion helper: it takes
  the target length, the indices that were computed on and the computed values,
  and gives the vector of the target length with each value placed at its index
  and zero everywhere else.
\<close>

definition fill_nan :: "nat \<Rightarrow> nat list \<Rightarrow> ndarray \<Rightarrow> ndarray" where
  "fill_nan n indices vals =
     fold (\<lambda>(i, v) a. a[i := v]) (zip indices vals) (replicate n (Fin 0))"

text \<open>
  \<^verbatim>\<open>EMSRb_MR(fares, demands, sigmas=None, cap=None)\<close>. \<^verbatim>\<open>fare_transformation\<close> of
  \<^verbatim>\<open>pyrm/faretransformation.py\<close> is not among the sources either; it is a
  parameter, a function from the fares, the demands and the optional cap to the
  pair of the adjusted fares and the adjusted demand. \<^verbatim>\<open>fares.shape\<close> is the
  length of \<open>fares\<close>.
\<close>

definition EMSRb_MR ::
  "(real \<Rightarrow> real) \<Rightarrow> (ndarray \<Rightarrow> ndarray \<Rightarrow> npfloat option \<Rightarrow> ndarray \<times> ndarray)
     \<Rightarrow> ndarray \<Rightarrow> ndarray \<Rightarrow> ndarray option \<Rightarrow> npfloat option \<Rightarrow> py_error + ndarray" where
  "EMSRb_MR probit fare_transformation fares demands sigmas cap =
     (let sigmas1 = (case sigmas of None \<Rightarrow> replicate (length fares) (Fin 0) | Some s \<Rightarrow> s);
          (adjusted_fares, adjusted_demand) = fare_transformation fares demands cap;
          efficient_indices = np_where_not_nan adjusted_fares
      in case np_take adjusted_fares efficient_indices of
           Inl e \<Rightarrow> Inl e
         | Inr efficient_fares \<Rightarrow>
             if length efficient_fares \<noteq> 0
             then (case np_take adjusted_demand efficient_indices of
                     Inl e \<Rightarrow> Inl e
                   | Inr efficient_demand \<Rightarrow>
                       (case np_take sigmas1 efficient_indices of
                          Inl e \<Rightarrow> Inl e
                        | Inr efficient_sigmas \<Rightarrow>
                            (case EMSRb probit efficient_fares efficient_demand
                                    (Some efficient_sigmas) of
                               Inl e \<Rightarrow> Inl e
                             | Inr protection_levels_ \<Rightarrow>
                                 Inr (fill_nan (length fares) efficient_indices
                                        protection_levels_))))
             else Inr (replicate (length fares) (Fin 0)))"

section \<open>The optimizers on a store of arrays\<close>

text \<open>
  Whether a call changes the caller's arrays is a question about references. Here
  the arrays live in a store, a list of array contents; a reference is an index
  into it. \<^verbatim>\<open>np.zeros\<close>, \<^verbatim>\<open>cumsum\<close>, \<^verbatim>\<open>np.round\<close>, \<^verbatim>\<open>np.hstack\<close> and indexing with
  an index array create a new array, which \<open>alloc\<close> appends to the store. An
  assignment \<^verbatim>\<open>y[...] = ...\<close> replaces the content of the array \<open>y\<close> refers to.
  A slice such as \<^verbatim>\<open>demands[:j]\<close> is a view that the code only reads, and the
  value of an expression such as \<^verbatim>\<open>demands[:j]*fares[:j]\<close> is dead after its
  statement: both are read as values and not allocated. Each function returns
  its result, an error or a reference, together with the store it leaves.
\<close>

type_synonym store = "ndarray list"

definition alloc :: "ndarray \<Rightarrow> store \<Rightarrow> nat \<times> store" where
  "alloc a h = (length h, h @ [a])"

fun EMSRb_loop_st ::
  "(real \<Rightarrow> real) \<Rightarrow> nat \<Rightarrow> nat \<Rightarrow> nat \<Rightarrow> nat list \<Rightarrow> nat \<Rightarrow> store
     \<Rightarrow> (py_error + unit) \<times> store" where
  "EMSRb_loop_st probit fares demands sigmas [] y h = (Inr (), h)"
| "EMSRb_loop_st probit fares demands sigmas (j # js) y h =
     (case EMSRb_body probit (h ! fares) (h ! demands) (h ! sigmas) j (h ! y) of
        Inl e \<Rightarrow> (Inl e, h)
      | Inr y' \<Rightarrow> EMSRb_loop_st probit fares demands sigmas js y (h[y := y']))"

definition EMSRb_deterministic_st :: "nat \<Rightarrow> store \<Rightarrow> (py_error + nat) \<times> store" where
  "EMSRb_deterministic_st demands h =
     (let (c, h1) = alloc (np_cumsum (h ! demands)) h;
          (r, h2) = alloc (np_round (butlast (h1 ! c))) h1;
          (out, h3) = alloc (Fin 0 # h2 ! r) h2
      in (Inr out, h3))"

definition EMSRb_gaussian_st ::
  "(real \<Rightarrow> real) \<Rightarrow> nat \<Rightarrow> nat \<Rightarrow> nat \<Rightarrow> nat \<Rightarrow> store \<Rightarrow> (py_error + nat) \<times> store" where
  "EMSRb_gaussian_st probit fares demands sigmas y h =
     (case EMSRb_loop_st probit fares demands sigmas [1..<length (h ! fares)] y h of
        (Inl e, h1) \<Rightarrow> (Inl e, h1)
      | (Inr u, h1) \<Rightarrow>
          (let h2 = h1[y := clamp_negative (h1 ! y)];
               h3 = h2[y := clamp_nan (h2 ! y)];
               (r, h4) = alloc (np_round (h3 ! y)) h3;
               (out, h5) = alloc (Fin 0 # h4 ! r) h4
           in (Inr out, h5)))"

definition EMSRb_st ::
  "(real \<Rightarrow> real) \<Rightarrow> nat \<Rightarrow> nat \<Rightarrow> nat option \<Rightarrow> store \<Rightarrow> (py_error + nat) \<times> store" where
  "EMSRb_st probit fares demands sigmas h =
     (if length (h ! fares) = 0 then (Inl ValueError, h)
      else let (y, h1) = alloc (replicate (length (h ! fares) - 1) (Fin 0)) h
           in case sigmas of
                None \<Rightarrow> EMSRb_deterministic_st demands h1
              | Some s \<Rightarrow>
                  if np_all_zero (h1 ! s) then EMSRb_deterministic_st demands h1
                  else EMSRb_gaussian_st probit fares demands s y h1)"

text \<open>
  Modelled from the spec: \<^verbatim>\<open>fare_transformation\<close> is not among the sources. The
  specification has it take the fares, the demands and the optional cap and
  return the adjusted fares and the adjusted demand, with inputs that are
  read-only; on the store it reads the two arrays and allocates its two results.
\<close>

definition fare_transformation_st ::
  "(ndarray \<Rightarrow> ndarray \<Rightarrow> npfloat option \<Rightarrow> ndarray \<times> ndarray)
     \<Rightarrow> nat \<Rightarrow> nat \<Rightarrow> npfloat option \<Rightarrow> store \<Rightarrow> (nat \<times> nat) \<times> store" where
  "fare_transformation_st fare_transformation fares demands cap h =
     (let (adjusted_fares, h1) =
            alloc (fst (fare_transformation (h ! fares) (h ! demands) cap)) h;
          (adjusted_demand, h2) =
            alloc (snd (fare_transformation (h ! fares) (h ! demands) cap)) h1
      in ((adjusted_fares, adjusted_demand), h2))"

text \<open>
  Modelled from the spec: \<^verbatim>\<open>fill_nan\<close> is not among the sources. The specification
  has it produce a vector of the target length from the indices and the values;
  on the store it reads the values and allocates that vector.
\<close>

definition fill_nan_st :: "nat \<Rightarrow> nat list \<Rightarrow> nat \<Rightarrow> store \<Rightarrow> nat \<times> store" where
  "fill_nan_st n indices vals h = alloc (fill_nan n indices (h ! vals)) h"

text \<open>
  \<open>EMSRb_MR\<close> on the store. The name \<open>sigmas\<close> is rebound to a new array when no
  sigmas are given; \<^verbatim>\<open>adjusted_fares[efficient_indices]\<close> is evaluated once for the
  test and once more as the argument.
\<close>

definition EMSRb_MR_st ::
  "(real \<Rightarrow> real) \<Rightarrow> (ndarray \<Rightarrow> ndarray \<Rightarrow> npfloat option \<Rightarrow> ndarray \<times> ndarray)
     \<Rightarrow> nat \<Rightarrow> nat \<Rightarrow> nat option \<Rightarrow> npfloat option \<Rightarrow> store
     \<Rightarrow> (py_error + nat) \<times> store" where
  "EMSRb_MR_st probit fare_transformation fares demands sigmas cap h =
     (let (sigmas1, h1) =
            (case sigmas of
               None \<Rightarrow> alloc (replicate (length (h ! fares)) (Fin 0)) h
             | Some s \<Rightarrow> (s, h));
          ((adjusted_fares, adjusted_demand), h3) =
            fare_transformation_st fare_transformation fares demands cap h1;
          efficient_indices = np_where_not_nan (h3 ! adjusted_fares)
      in case np_take (h3 ! adjusted_fares) efficient_indices of
           Inl e \<Rightarrow> (Inl e, h3)
         | Inr a0 \<Rightarrow>
             (let (efficient_fares0, h4) = alloc a0 h3
              in if length (h4 ! efficient_fares0) \<noteq> 0
                 then (case np_take (h4 ! adjusted_fares) efficient_indices of
                         Inl e \<Rightarrow> (Inl e, h4)
                       | Inr a \<Rightarrow>
                     (let (efficient_fares, h5) = alloc a h4
                      in case np_take (h5 ! adjusted_demand) efficient_indices of
                           Inl e \<Rightarrow> (Inl e, h5)
                         | Inr b \<Rightarrow>
                     (let (efficient_demand, h6) = alloc b h5
                      in case np_take (h6 ! sigmas1) efficient_indices of
                           Inl e \<Rightarrow> (Inl e, h6)
                         | Inr c \<Rightarrow>
                     (let (efficient_sigmas, h7) = alloc c h6
                      in case EMSRb_st probit efficient_fares efficient_demand
                                (Some efficient_sigmas) h7 of
                           (Inl e, h8) \<Rightarrow> (Inl e, h8)
                         | (Inr protection_levels_, h8) \<Rightarrow>
                             (let (protection_levels, h9) =
                                    fill_nan_st (length (h8 ! fares)) efficient_indices
                                      protection_levels_ h8
                              in (Inr protection_levels, h9))))))
                 else (let (protection_levels, h5) =
                             alloc (replicate (length (h4 ! fares)) (Fin 0)) h4
                       in (Inr protection_levels, h5))))"

text \<open>
  A store \<open>h'\<close> leaves a store \<open>h\<close> unchanged when every array of \<open>h\<close> is in \<open>h'\<close> at
  its index with its content; \<open>h'\<close> may hold more arrays.
\<close>

definition unchanged :: "store \<Rightarrow> store \<Rightarrow> bool" where
  "unchanged h h' \<longleftrightarrow> length h \<le> length h' \<and> take (length h) h' = h"

section \<open>Functions for the closed examples\<close>

text \<open>
  The examples need a function in the place of \<open>probit\<close>. This one agrees with the
  inverse normal distribution function at \<open>1/2\<close>, where both are 0; no example
  evaluates it at another point.
\<close>

definition probit_stub :: "real \<Rightarrow> real" where
  "probit_stub p = 0"

text \<open>
  The examples of \<open>EMSRb_MR\<close> need a fare transformation. This one leaves the fares
  and the demands as they are and marks as inefficient the classes whose entry in
  a mask is false.
\<close>

definition ft_mask :: "bool list \<Rightarrow> ndarray \<Rightarrow> ndarray \<Rightarrow> npfloat option \<Rightarrow> ndarray \<times> ndarray" where
  "ft_mask efficient fares demands cap =
     (map2 (\<lambda>e f. if e then f else NaN) efficient fares, demands)"

section \<open>Arithmetic and array lemmas\<close>

lemma fadd_zero_left: "fadd (Fin 0) x = x"
  by (cases x) simp_all

lemma fadd_zero_right: "fadd x (Fin 0) = x"
  by (cases x) simp_all

text \<open>
  numpy adds the elements of an array in blocks and pairs, not from left to
  right. \<open>fadd\<close> is associative and commutative, so the order does not matter
  here: the sum of an array is the sum of its parts, in any order.
\<close>

lemma fadd_commute: "fadd x y = fadd y x"
  by (cases x; cases y) simp_all

lemma fadd_assoc: "fadd (fadd x y) z = fadd x (fadd y z)"
  by (cases x; cases y; cases z) simp_all

lemma foldl_fadd_start: "foldl fadd a xs = fadd a (foldl fadd (Fin 0) xs)"
proof (induction xs arbitrary: a)
  case Nil
  show ?case by (simp add: fadd_zero_right)
next
  case (Cons x xs)
  have "foldl fadd a (x # xs) = fadd (fadd a x) (foldl fadd (Fin 0) xs)"
    using Cons.IH [of "fadd a x"] by simp
  also have "\<dots> = fadd a (fadd x (foldl fadd (Fin 0) xs))"
    by (rule fadd_assoc)
  also have "fadd x (foldl fadd (Fin 0) xs) = foldl fadd (Fin 0) (x # xs)"
    using Cons.IH [of x] by (simp add: fadd_zero_left)
  finally show ?case .
qed

lemma np_sum_append: "np_sum (xs @ ys) = fadd (np_sum xs) (np_sum ys)"
  using foldl_fadd_start [of "foldl fadd (Fin 0) xs" ys] by (simp add: np_sum_def)

lemma np_sum_rev: "np_sum (rev xs) = np_sum xs"
proof (induction xs)
  case Nil
  show ?case by simp
next
  case (Cons x xs)
  have "np_sum (rev (x # xs)) = fadd (np_sum xs) (np_sum [x])"
    using Cons.IH by (simp add: np_sum_append)
  also have "\<dots> = fadd (np_sum [x]) (np_sum xs)"
    by (rule fadd_commute)
  also have "\<dots> = np_sum ([x] @ xs)"
    by (rule np_sum_append [symmetric])
  finally show ?case by simp
qed

lemma length_cumsum_from: "length (cumsum_from acc xs) = length xs"
  by (induction xs arbitrary: acc) simp_all

lemma length_np_cumsum: "length (np_cumsum xs) = length xs"
  by (cases xs) (simp_all add: length_cumsum_from)

lemma nth_cumsum_from:
  "i < length xs \<Longrightarrow> cumsum_from acc xs ! i = foldl fadd acc (take (Suc i) xs)"
proof (induction xs arbitrary: acc i)
  case Nil
  then show ?case by simp
next
  case (Cons x xs)
  show ?case
  proof (cases i)
    case 0
    then show ?thesis by simp
  next
    case (Suc k)
    with Cons.prems have "k < length xs" by simp
    from Cons.IH [OF this] Suc show ?thesis by simp
  qed
qed

lemma nth_np_cumsum:
  assumes "i < length xs"
  shows "np_cumsum xs ! i = np_sum (take (Suc i) xs)"
proof (cases xs)
  case Nil
  with assms show ?thesis by simp
next
  case (Cons x ys)
  show ?thesis
  proof (cases i)
    case 0
    with Cons show ?thesis by (simp add: np_sum_def fadd_zero_left)
  next
    case (Suc k)
    with assms Cons have "k < length ys" by simp
    with Cons Suc show ?thesis
      by (simp add: np_sum_def fadd_zero_left nth_cumsum_from)
  qed
qed

lemma EMSRb_deterministic_eq:
  assumes "fares \<noteq> []" and "deterministic sigmas"
  shows "EMSRb probit fares demands sigmas = EMSRb_deterministic demands"
  using assms by (simp add: EMSRb_def deterministic_def split: option.splits)

text \<open>
  Claim C2. When \<open>fares\<close> and \<open>demands\<close> have the same length, at least 1, and
  \<open>sigmas\<close> is absent or entirely zero, \<open>EMSRb\<close> returns a vector of that length
  whose element 0 is 0 and whose other elements are the rounded cumulative sums
  of the demands without the last one: element \<open>j\<close> is the rounded sum of
  \<^verbatim>\<open>demands[0:j]\<close>.
\<close>

theorem EMSRb_deterministic_cumsum:
  assumes "length fares = length demands" and "1 \<le> length fares"
    and "deterministic sigmas"
  shows "\<exists>out. EMSRb probit fares demands sigmas = Inr out
           \<and> length out = length fares
           \<and> out ! 0 = Fin 0
           \<and> tl out = np_round (butlast (np_cumsum demands))
           \<and> (\<forall>j. 1 \<le> j \<and> j < length fares \<longrightarrow>
                  out ! j = fround (np_sum (take j demands)))"
proof -
  let ?out = "Fin 0 # np_round (butlast (np_cumsum demands))"
  from assms(2) have ne: "fares \<noteq> []" by auto
  have run: "EMSRb probit fares demands sigmas = Inr ?out"
    using EMSRb_deterministic_eq [OF ne assms(3)] by (simp add: EMSRb_deterministic_def)
  have len: "length ?out = length fares"
    using assms(1,2) by (simp add: np_round_def length_np_cumsum)
  have lvl: "?out ! j = fround (np_sum (take j demands))"
    if "1 \<le> j" and "j < length fares" for j
  proof -
    from that obtain k where k: "j = Suc k" by (cases j) auto
    with that assms(1) have kl: "k < length demands - 1" by simp
    then have "k < length (butlast (np_cumsum demands))"
      by (simp add: length_np_cumsum)
    then have "?out ! j = fround (np_cumsum demands ! k)"
      using k by (simp add: np_round_def nth_butlast)
    also have "np_cumsum demands ! k = np_sum (take (Suc k) demands)"
      using kl by (intro nth_np_cumsum) simp
    finally show ?thesis using k by simp
  qed
  from run len lvl show ?thesis by simp
qed

theorem EMSRb_deterministic_cumsum_witness:
  "length [Fin 100, Fin 75, Fin 50] = length [Fin 10, Fin 20, Fin 30]
   \<and> 1 \<le> length [Fin 100, Fin 75, Fin 50]
   \<and> deterministic None
   \<and> EMSRb probit_stub [Fin 100, Fin 75, Fin 50] [Fin 10, Fin 20, Fin 30] None
       = Inr [Fin 0, Fin 10, Fin 30]"
proof -
  have h: "deterministic None" by (simp add: deterministic_def)
  obtain out where
    run: "EMSRb probit_stub [Fin 100, Fin 75, Fin 50] [Fin 10, Fin 20, Fin 30] None = Inr out"
    and tl: "tl out = np_round (butlast (np_cumsum [Fin 10, Fin 20, Fin 30]))"
    and hd: "out ! 0 = Fin 0" and len: "length out = length [Fin 100, Fin 75, Fin 50 :: npfloat]"
    using EMSRb_deterministic_cumsum
      [of "[Fin 100, Fin 75, Fin 50]" "[Fin 10, Fin 20, Fin 30]" None probit_stub] h
    by auto
  from tl have "tl out = [Fin 10, Fin 30]"
    by (simp add: np_round_def rint_def Let_def)
  with hd len have "out = [Fin 0, Fin 10, Fin 30]"
    by (cases out) simp_all
  with run h show ?thesis by simp
qed

section \<open>The Gaussian levels before clamping\<close>

lemma np_multiply_same_length:
  "length a = length b \<Longrightarrow> np_multiply a b = Inr (map2 fmul a b)"
  by (simp add: np_multiply_def)

lemma map2_take_nth:
  assumes "j \<le> length d" and "j \<le> length f"
  shows "map2 fmul (take j d) (take j f) = map (\<lambda>i. fmul (d ! i) (f ! i)) [0..<j]"
  using assms by (intro nth_equalityI) simp_all

lemma EMSRb_body_spec:
  assumes "length fares = length demands" and "j < length fares"
  shows "EMSRb_body probit fares demands sigmas j y
           = Inr (y[j - 1 := spec_level probit fares demands sigmas j])"
proof -
  have "np_multiply (take j demands) (take j fares)
          = Inr (map (\<lambda>i. fmul (demands ! i) (fares ! i)) [0..<j])"
    using assms by (simp add: np_multiply_same_length map2_take_nth)
  then show ?thesis
    by (simp add: EMSRb_body_def spec_level_def spec_S_def spec_p_bar_def spec_sigma_def Let_def)
qed

lemma EMSRb_loop_fold:
  assumes "length fares = length demands" and "\<forall>j\<in>set js. j < length fares"
  shows "EMSRb_loop probit fares demands sigmas js y
           = Inr (fold (\<lambda>j y. y[j - 1 := spec_level probit fares demands sigmas j]) js y)"
  using assms(2)
proof (induction js arbitrary: y)
  case Nil
  show ?case by simp
next
  case (Cons j js)
  then have "j < length fares" by simp
  from EMSRb_body_spec [OF assms(1) this] Cons show ?case by simp
qed

lemma fold_update_upt:
  "n \<le> length y \<Longrightarrow>
     fold (\<lambda>j y. y[j - 1 := g j]) [1..<Suc n] y = map g [1..<Suc n] @ drop n y"
proof (induction n)
  case 0
  show ?case by simp
next
  case (Suc n)
  then have n: "n < length y" by simp
  have "fold (\<lambda>j y. y[j - 1 := g j]) [1..<Suc (Suc n)] y
          = (map g [1..<Suc n] @ drop n y)[n := g (Suc n)]"
    using Suc by simp
  also have "\<dots> = map g [1..<Suc n] @ (drop n y)[0 := g (Suc n)]"
    by (simp add: list_update_append)
  also have "(drop n y)[0 := g (Suc n)] = g (Suc n) # drop (Suc n) y"
    using n by (simp add: Cons_nth_drop_Suc [symmetric])
  finally show ?case by simp
qed

lemma EMSRb_levels_spec:
  assumes "length fares = length demands" and "1 \<le> length fares"
  shows "EMSRb_levels probit fares demands sigmas
           = Inr (map (spec_level probit fares demands sigmas) [1..<length fares])"
proof -
  obtain n where n: "length fares = Suc n"
    using assms(2) by (cases "length fares") auto
  have all: "\<forall>j\<in>set [1..<Suc n]. j < length fares"
    by (auto simp: n)
  have "EMSRb_levels probit fares demands sigmas
          = EMSRb_loop probit fares demands sigmas [1..<Suc n] (replicate n (Fin 0))"
    by (simp add: EMSRb_levels_def n)
  also have "\<dots> = Inr (fold (\<lambda>j y. y[j - 1 := spec_level probit fares demands sigmas j])
                   [1..<Suc n] (replicate n (Fin 0)))"
    by (rule EMSRb_loop_fold [OF assms(1) all])
  also have "fold (\<lambda>j y. y[j - 1 := spec_level probit fares demands sigmas j])
                   [1..<Suc n] (replicate n (Fin 0))
               = map (spec_level probit fares demands sigmas) [1..<Suc n]"
    by (subst fold_update_upt) simp_all
  finally show ?thesis by (simp add: n)
qed

lemma EMSRb_gaussian_eq:
  assumes "fares \<noteq> []" and "\<not> np_all_zero s"
  shows "EMSRb probit fares demands (Some s) = EMSRb_gaussian probit fares demands s"
  using assms by (simp add: EMSRb_def)

text \<open>
  Claim C1. When \<open>fares\<close> and \<open>demands\<close> have the same length \<open>N\<close>, at least 2,
  and \<open>sigmas\<close> is present and not all zero, the loop of \<open>EMSRb\<close> ends without an
  error with a vector \<open>y\<close> of length \<open>N - 1\<close> whose entry for each boundary \<open>j\<close>
  from 1 to \<open>N - 1\<close> is \<open>S_j + z * sigma_j\<close>, with \<open>S_j\<close>, \<open>z\<close>, \<open>p_bar_j\<close> and
  \<open>sigma_j\<close> as the specification defines them; \<open>EMSRb\<close> returns 0 followed by the
  clamped and rounded \<open>y\<close>. The order of the fares plays no part.
\<close>

theorem EMSRb_gaussian_level_formula:
  assumes "length fares = length demands" and "2 \<le> length fares"
    and "\<not> np_all_zero sigmas"
  shows "\<exists>y. EMSRb_levels probit fares demands sigmas = Inr y
           \<and> length y = length fares - 1
           \<and> (\<forall>j. 1 \<le> j \<and> j < length fares \<longrightarrow>
                  y ! (j - 1) = spec_level probit fares demands sigmas j)
           \<and> EMSRb probit fares demands (Some sigmas)
               = Inr (Fin 0 # np_round (clamp_nan (clamp_negative y)))"
proof -
  let ?y = "map (spec_level probit fares demands sigmas) [1..<length fares]"
  from assms(2) have one: "1 \<le> length fares" and ne: "fares \<noteq> []" by auto
  have lv: "EMSRb_levels probit fares demands sigmas = Inr ?y"
    by (rule EMSRb_levels_spec [OF assms(1) one])
  have nth: "?y ! (j - 1) = spec_level probit fares demands sigmas j"
    if "1 \<le> j" and "j < length fares" for j
    using that by simp
  have "EMSRb probit fares demands (Some sigmas)
          = Inr (Fin 0 # np_round (clamp_nan (clamp_negative ?y)))"
    using EMSRb_gaussian_eq [OF ne assms(3)] lv by (simp add: EMSRb_gaussian_def)
  moreover have "length ?y = length fares - 1" by simp
  ultimately show ?thesis using lv nth by blast
qed

theorem EMSRb_gaussian_level_formula_witness:
  "length [Fin 100, Fin 50, Fin (75 / 2)] = length [Fin 10, Fin 10, Fin 5]
   \<and> 2 \<le> length [Fin 100, Fin 50, Fin (75 / 2)]
   \<and> \<not> np_all_zero [Fin 3, Fin 4, Fin 1]
   \<and> spec_level probit_stub [Fin 100, Fin 50, Fin (75 / 2)] [Fin 10, Fin 10, Fin 5]
        [Fin 3, Fin 4, Fin 1] 1 = Fin 10
   \<and> spec_level probit_stub [Fin 100, Fin 50, Fin (75 / 2)] [Fin 10, Fin 10, Fin 5]
        [Fin 3, Fin 4, Fin 1] 2 = Fin 20
   \<and> EMSRb_levels probit_stub [Fin 100, Fin 50, Fin (75 / 2)] [Fin 10, Fin 10, Fin 5]
        [Fin 3, Fin 4, Fin 1] = Inr [Fin 10, Fin 20]
   \<and> EMSRb probit_stub [Fin 100, Fin 50, Fin (75 / 2)] [Fin 10, Fin 10, Fin 5]
        (Some [Fin 3, Fin 4, Fin 1]) = Inr [Fin 0, Fin 10, Fin 20]"
proof -
  let ?f = "[Fin 100, Fin 50, Fin (75 / 2)]"
  let ?d = "[Fin 10, Fin 10, Fin 5]"
  let ?s = "[Fin 3, Fin 4, Fin 1]"
  have h: "\<not> np_all_zero ?s" by (simp add: np_all_zero_def)
  have l1: "spec_level probit_stub ?f ?d ?s 1 = Fin 10"
    by (simp add: spec_level_def spec_S_def spec_p_bar_def spec_sigma_def np_sum_def
        fsub_def probit_stub_def)
  have l2: "spec_level probit_stub ?f ?d ?s 2 = Fin 20"
    by (simp add: spec_level_def spec_S_def spec_p_bar_def spec_sigma_def np_sum_def
        fsub_def probit_stub_def upt_rec)
  obtain y where lv: "EMSRb_levels probit_stub ?f ?d ?s = Inr y"
    and len: "length y = length ?f - 1"
    and nth: "\<forall>j. 1 \<le> j \<and> j < length ?f \<longrightarrow> y ! (j - 1) = spec_level probit_stub ?f ?d ?s j"
    and run: "EMSRb probit_stub ?f ?d (Some ?s) = Inr (Fin 0 # np_round (clamp_nan (clamp_negative y)))"
    using EMSRb_gaussian_level_formula [of ?f ?d ?s probit_stub] h by auto
  from nth [rule_format, of 1] l1 have y0: "y ! 0 = Fin 10" by simp
  from nth [rule_format, of 2] l2 have y1: "y ! 1 = Fin 20" by simp
  from len have "length y = 2" by simp
  then obtain a b where "y = [a, b]"
    by (cases y; cases "tl y") auto
  with y0 y1 have y: "y = [Fin 10, Fin 20]" by simp
  from run y have "EMSRb probit_stub ?f ?d (Some ?s) = Inr [Fin 0, Fin 10, Fin 20]"
    by (simp add: np_round_def clamp_nan_def clamp_negative_def rint_def Let_def)
  with h l1 l2 lv y show ?thesis by simp
qed

section \<open>Non-negative outputs\<close>

lemma rint_nonneg: "0 \<le> a \<Longrightarrow> 0 \<le> rint a"
proof -
  assume "0 \<le> a"
  then have "0 \<le> \<lfloor>a\<rfloor>" by simp
  then show ?thesis by (simp add: rint_def Let_def)
qed

lemma fround_fge0: "fge0 x \<Longrightarrow> fge0 (fround x)"
  by (cases x) (simp_all add: rint_nonneg)

lemma fadd_fge0: "fge0 x \<Longrightarrow> fge0 y \<Longrightarrow> fge0 (fadd x y)"
  by (cases x; cases y) simp_all

lemma cumsum_from_fge0:
  "fge0 acc \<Longrightarrow> list_all fge0 xs \<Longrightarrow> list_all fge0 (cumsum_from acc xs)"
  by (induction xs arbitrary: acc) (simp_all add: fadd_fge0)

lemma np_cumsum_fge0: "list_all fge0 xs \<Longrightarrow> list_all fge0 (np_cumsum xs)"
  by (cases xs) (simp_all add: cumsum_from_fge0)

lemma EMSRb_deterministic_fge0:
  assumes "list_all fge0 demands"
  shows "\<exists>out. EMSRb_deterministic demands = Inr out \<and> list_all fge0 out"
proof -
  have "list_all fge0 (butlast (np_cumsum demands))"
    using np_cumsum_fge0 [OF assms] by (auto simp: list_all_iff dest: in_set_butlastD)
  then have "list_all fge0 (np_round (butlast (np_cumsum demands)))"
    by (simp add: np_round_def list_all_iff fround_fge0)
  then show ?thesis by (simp add: EMSRb_deterministic_def)
qed

lemma clamped_fge0: "fge0 (fround (if isnan (if flt0 v then Fin 0 else v) then Fin 0
                                    else (if flt0 v then Fin 0 else v)))"
  by (cases v) (simp_all add: rint_nonneg)

lemma clamp_round_fge0: "list_all fge0 (np_round (clamp_nan (clamp_negative y)))"
  by (simp add: np_round_def clamp_nan_def clamp_negative_def list_all_iff clamped_fge0)

lemma EMSRb_gaussian_fge0:
  assumes "length fares = length demands" and "1 \<le> length fares"
  shows "\<exists>out. EMSRb_gaussian probit fares demands sigmas = Inr out \<and> list_all fge0 out"
  by (simp add: EMSRb_gaussian_def EMSRb_levels_spec [OF assms] clamp_round_fge0)

text \<open>
  On float64 arrays of the same length, at least 1, with every demand at least
  0, \<open>EMSRb\<close> returns a vector whose elements are all at least 0, in both modes.
\<close>

lemma EMSRb_float64_nonnegative:
  assumes "length fares = length demands" and "1 \<le> length fares"
    and "list_all fge0 demands"
  shows "\<exists>out. EMSRb probit fares demands sigmas = Inr out \<and> (\<forall>x\<in>set out. fge0 x)"
proof -
  from assms(2) have ne: "fares \<noteq> []" by auto
  have "\<exists>out. EMSRb probit fares demands sigmas = Inr out \<and> list_all fge0 out"
  proof (cases sigmas)
    case None
    with ne EMSRb_deterministic_fge0 [OF assms(3)] show ?thesis
      by (simp add: EMSRb_def)
  next
    case (Some s)
    show ?thesis
    proof (cases "np_all_zero s")
      case True
      with Some ne EMSRb_deterministic_fge0 [OF assms(3)] show ?thesis
        by (simp add: EMSRb_def)
    next
      case False
      with Some ne EMSRb_gaussian_fge0 [OF assms(1,2), of probit s] show ?thesis
        by (simp add: EMSRb_def)
    qed
  qed
  then show ?thesis by (simp add: list_all_iff)
qed

section \<open>The dtype of the arguments\<close>

subsection \<open>On float64 arrays the two models agree\<close>

lemma EMSRb_body_dt_float64:
  "EMSRb_body_dt probit (Float64 fares) (Float64 demands) (Float64 sigmas) j y
     = EMSRb_body probit fares demands sigmas j y"
  by (cases "np_multiply (take j demands) (take j fares)")
    (simp_all add: EMSRb_body_dt_def EMSRb_body_def Let_def)

lemma EMSRb_loop_dt_float64:
  "EMSRb_loop_dt probit (Float64 fares) (Float64 demands) (Float64 sigmas) js y
     = EMSRb_loop probit fares demands sigmas js y"
  by (induction js arbitrary: y) (simp_all add: EMSRb_body_dt_float64 split: sum.splits)

lemma EMSRb_gaussian_dt_float64:
  "EMSRb_gaussian_dt probit (Float64 fares) (Float64 demands) (Float64 sigmas)
     = map_sum id Float64 (EMSRb_gaussian probit fares demands sigmas)"
  by (simp add: EMSRb_gaussian_dt_def EMSRb_gaussian_def EMSRb_levels_def
      EMSRb_loop_dt_float64 split: sum.splits)

lemma EMSRb_dt_float64:
  "EMSRb_dt probit (Float64 fares) (Float64 demands) (map_option Float64 sigmas)
     = map_sum id Float64 (EMSRb probit fares demands sigmas)"
  by (cases sigmas)
    (simp_all add: EMSRb_dt_def EMSRb_def EMSRb_deterministic_def EMSRb_gaussian_dt_float64)

subsection \<open>The Gaussian mode, whatever the dtypes\<close>

lemma np_len_slice: "np_len (np_slice j a) = min (np_len a) j"
  by (cases a) simp_all

lemma np_multiply_int64_same_length:
  "length a = length b \<Longrightarrow> \<exists>c. np_multiply_int64 a b = Inr c"
  by (simp add: np_multiply_int64_def)

lemma length_as_float64: "length (as_float64 a) = np_len a"
  by (cases a) simp_all

lemma np_multiply_dt_same_length:
  assumes "np_len a = np_len b"
  shows "\<exists>c. np_multiply_dt a b = Inr c"
proof (cases "\<exists>x y. a = Int64 x \<and> b = Int64 y")
  case True
  then obtain x y where "a = Int64 x" and "b = Int64 y" by blast
  with assms np_multiply_int64_same_length [of x y] show ?thesis by auto
next
  case False
  have "length (as_float64 a) = length (as_float64 b)"
    using assms by (simp add: length_as_float64)
  then have "np_multiply (as_float64 a) (as_float64 b)
               = Inr (map2 fmul (as_float64 a) (as_float64 b))"
    by (rule np_multiply_same_length)
  with False show ?thesis by (cases a; cases b) simp_all
qed

lemma EMSRb_body_dt_returns:
  assumes "np_len fares = np_len demands"
  shows "\<exists>y'. EMSRb_body_dt probit fares demands sigmas j y = Inr y'"
proof -
  have "np_len (np_slice j demands) = np_len (np_slice j fares)"
    using assms by (simp add: np_len_slice)
  from np_multiply_dt_same_length [OF this]
  obtain c where "np_multiply_dt (np_slice j demands) (np_slice j fares) = Inr c" ..
  then show ?thesis by (simp add: EMSRb_body_dt_def Let_def)
qed

lemma EMSRb_loop_dt_returns:
  assumes "np_len fares = np_len demands"
  shows "\<exists>y'. EMSRb_loop_dt probit fares demands sigmas js y = Inr y'"
proof (induction js arbitrary: y)
  case Nil
  show ?case by simp
next
  case (Cons j js)
  from EMSRb_body_dt_returns [OF assms, of probit sigmas j y]
  obtain y1 where "EMSRb_body_dt probit fares demands sigmas j y = Inr y1" ..
  with Cons.IH [of y1] show ?case by simp
qed

lemma EMSRb_gaussian_dt_ge0:
  assumes "np_len fares = np_len demands"
  shows "\<exists>out. EMSRb_gaussian_dt probit fares demands sigmas = Inr out \<and> np_ge0 out"
proof -
  from EMSRb_loop_dt_returns [OF assms, of probit sigmas "[1..<np_len fares]"
      "replicate (np_len fares - 1) (Fin 0)"]
  obtain y where "EMSRb_loop_dt probit fares demands sigmas [1..<np_len fares]
                    (replicate (np_len fares - 1) (Fin 0)) = Inr y" ..
  then show ?thesis
    by (simp add: EMSRb_gaussian_dt_def clamp_round_fge0)
qed

subsection \<open>The deterministic mode on int64 demands\<close>

lemma cumsum_from_int64_empty: "cumsum_from_int64 acc xs = [] \<longleftrightarrow> xs = []"
  by (cases xs) simp_all

lemma butlast_cumsum_from_int64:
  "butlast (cumsum_from_int64 acc xs) = cumsum_from_int64 acc (butlast xs)"
  by (induction xs arbitrary: acc) (simp_all add: cumsum_from_int64_empty)

lemma sint_add_no_wrap:
  fixes a b :: int64
  assumes "0 \<le> sint a" and "0 \<le> sint b" and "sint a + sint b < 2 ^ 63"
  shows "sint (a + b) = sint a + sint b"
proof -
  have "sint (a + b) = signed_take_bit (LENGTH(64) - 1) (sint a + sint b)"
    by (rule sint_word_add)
  also have "\<dots> = sint a + sint b"
    using assms by (intro signed_take_bit_int_eq_self) simp_all
  finally show ?thesis .
qed

lemma cumsum_from_int64_ge0:
  "0 \<le> sint acc \<Longrightarrow> \<forall>w\<in>set xs. 0 \<le> sint w
     \<Longrightarrow> sint acc + sum_list (map sint xs) < 2 ^ 63
     \<Longrightarrow> \<forall>w\<in>set (cumsum_from_int64 acc xs). 0 \<le> sint w"
proof (induction xs arbitrary: acc)
  case Nil
  show ?case by simp
next
  case (Cons x xs)
  have rest: "0 \<le> sum_list (map sint xs)"
    using Cons.prems(2) by (intro sum_list_nonneg) auto
  from Cons.prems have x: "0 \<le> sint x" by simp
  from Cons.prems(3) rest have "sint acc + sint x < 2 ^ 63" by simp
  from sint_add_no_wrap [OF Cons.prems(1) x this]
  have eq: "sint (acc + x) = sint acc + sint x" .
  with Cons.prems(1) x have nn: "0 \<le> sint (acc + x)" by simp
  from eq Cons.prems(3) have "sint (acc + x) + sum_list (map sint xs) < 2 ^ 63" by simp
  from Cons.IH [OF nn _ this] Cons.prems(2) nn show ?case by simp
qed

lemma EMSRb_deterministic_int64_ge0:
  assumes "\<forall>w\<in>set demands. 0 \<le> sint w"
    and "sum_list (map sint (butlast demands)) < 2 ^ 63"
  shows "\<forall>w\<in>set (0 # butlast (np_cumsum_int64 demands)). 0 \<le> sint w"
proof (cases demands)
  case Nil
  then show ?thesis by simp
next
  case (Cons x xs)
  show ?thesis
  proof (cases "xs = []")
    case True
    with Cons show ?thesis by simp
  next
    case False
    with Cons assms(2) have total: "sint x + sum_list (map sint (butlast xs)) < 2 ^ 63"
      by simp
    from Cons assms(1) have x: "0 \<le> sint x" and "\<forall>w\<in>set (butlast xs). 0 \<le> sint w"
      by (auto dest: in_set_butlastD)
    from cumsum_from_int64_ge0 [OF x this(2) total]
    have "\<forall>w\<in>set (cumsum_from_int64 x (butlast xs)). 0 \<le> sint w" .
    with Cons False x show ?thesis
      by (simp add: cumsum_from_int64_empty butlast_cumsum_from_int64)
  qed
qed

lemma EMSRb_deterministic_dt_ge0:
  assumes "np_ge0 demands" and "no_wrap demands"
  shows "\<exists>out. EMSRb_deterministic_dt demands = Inr out \<and> np_ge0 out"
proof (cases demands)
  case (Float64 d)
  with assms(1) EMSRb_deterministic_fge0 [of d] show ?thesis
    by (simp add: EMSRb_deterministic_def)
next
  case (Int64 d)
  with assms EMSRb_deterministic_int64_ge0 [of d] show ?thesis
    by (simp add: list_all_iff)
qed

subsection \<open>Non-negative results\<close>

text \<open>
  Claim C8, as amended. For \<open>fares\<close> and \<open>demands\<close> of the same length, at least 1,
  given as float64 or int64 arrays, \<open>EMSRb\<close> returns a vector. In the Gaussian
  mode every element of it is at least 0. In the deterministic mode every
  element is at least 0 when every demand is at least 0 and \<open>demands\<close> is a float64
  array, or an int64 array whose elements without the last sum to less than
  \<open>2^63\<close>, so that no running sum wraps.
\<close>

theorem EMSRb_nonnegative_dtype:
  assumes "np_len fares = np_len demands" and "1 \<le> np_len fares"
    and "deterministic_dt sigmas \<Longrightarrow> np_ge0 demands"
    and "deterministic_dt sigmas \<Longrightarrow> no_wrap demands"
  shows "\<exists>out. EMSRb_dt probit fares demands sigmas = Inr out \<and> np_ge0 out"
proof (cases "deterministic_dt sigmas")
  case True
  from assms(2) have ne: "np_len fares \<noteq> 0" by simp
  from True have "EMSRb_dt probit fares demands sigmas = EMSRb_deterministic_dt demands"
    using ne by (simp add: EMSRb_dt_def deterministic_dt_def split: option.splits)
  with EMSRb_deterministic_dt_ge0 [OF assms(3) [OF True] assms(4) [OF True]]
  show ?thesis by simp
next
  case False
  from assms(2) have ne: "np_len fares \<noteq> 0" by simp
  from False obtain s where s: "sigmas = Some s" and nz: "\<not> np_all_zero_dt s"
    by (auto simp: deterministic_dt_def split: option.splits)
  then have "EMSRb_dt probit fares demands sigmas = EMSRb_gaussian_dt probit fares demands s"
    using ne by (simp add: EMSRb_dt_def)
  with EMSRb_gaussian_dt_ge0 [OF assms(1), of probit s] show ?thesis by simp
qed

theorem EMSRb_nonnegative_dtype_witness:
  "np_len (Int64 [100, 75, 50]) = np_len (Int64 [10, 20, 30])
   \<and> 1 \<le> np_len (Int64 [100, 75, 50])
   \<and> deterministic_dt None
   \<and> np_ge0 (Int64 [10, 20, 30])
   \<and> no_wrap (Int64 [10, 20, 30])
   \<and> EMSRb_dt probit_stub (Int64 [100, 75, 50]) (Int64 [10, 20, 30]) None
       = Inr (Int64 [0, 10, 30])
   \<and> np_ge0 (Int64 [0, 10, 30])"
proof -
  let ?f = "Int64 [100, 75, 50]"
  let ?d = "Int64 [10, 20, 30]"
  have l: "np_len ?f = np_len ?d" "1 \<le> np_len ?f" by simp_all
  have m: "deterministic_dt None" by (simp add: deterministic_dt_def)
  have g: "np_ge0 ?d" by simp
  have w: "no_wrap ?d" by simp
  have run: "EMSRb_dt probit_stub ?f ?d None = Inr (Int64 [0, 10, 30])"
    by (simp add: EMSRb_dt_def)
  from EMSRb_nonnegative_dtype [OF l g w, of probit_stub None] run
  have out: "np_ge0 (Int64 [0, 10, 30])" by auto
  show ?thesis by (intro conjI) (fact l m g w run out)+
qed

text \<open>
  Claim C8 as stated fails on int64 demands: \<open>2^62\<close>, \<open>2^62\<close> and 1 are at least 0,
  their second running sum is \<open>2^63\<close>, which wraps to \<open>-2^63\<close>, and without sigmas
  \<open>EMSRb\<close> returns it as the level of the second boundary.
\<close>

theorem EMSRb_nonnegative_counterexample:
  "np_len (Int64 [100, 75, 50])
     = np_len (Int64 [4611686018427387904, 4611686018427387904, 1])
   \<and> 1 \<le> np_len (Int64 [100, 75, 50])
   \<and> np_ge0 (Int64 [4611686018427387904, 4611686018427387904, 1])
   \<and> EMSRb_dt probit_stub (Int64 [100, 75, 50])
         (Int64 [4611686018427387904, 4611686018427387904, 1]) None
       = Inr (Int64 [0, 4611686018427387904, 9223372036854775808])
   \<and> sint (9223372036854775808 :: int64) = - 9223372036854775808
   \<and> \<not> np_ge0 (Int64 [0, 4611686018427387904, 9223372036854775808])"
  by (simp add: EMSRb_dt_def)

section \<open>Clamping in the Gaussian mode\<close>

lemma fadd_eq_zero:
  "fge0 x \<Longrightarrow> fge0 y \<Longrightarrow> fadd x y = Fin 0 \<Longrightarrow> x = Fin 0 \<and> y = Fin 0"
  by (cases x; cases y) (simp_all add: add_nonneg_eq_0_iff)

lemma foldl_fadd_eq_zero:
  "fge0 acc \<Longrightarrow> list_all fge0 xs \<Longrightarrow> foldl fadd acc xs = Fin 0
     \<Longrightarrow> acc = Fin 0 \<and> (\<forall>x\<in>set xs. x = Fin 0)"
proof (induction xs arbitrary: acc)
  case Nil
  then show ?case by simp
next
  case (Cons x xs)
  from Cons.prems have "fge0 (fadd acc x)" by (simp add: fadd_fge0)
  with Cons.IH [of "fadd acc x"] Cons.prems
  have "fadd acc x = Fin 0" and rest: "\<forall>x\<in>set xs. x = Fin 0" by simp_all
  with fadd_eq_zero [of acc x] Cons.prems show ?case by simp
qed

lemma np_sum_eq_zero:
  "list_all fge0 xs \<Longrightarrow> np_sum xs = Fin 0 \<Longrightarrow> \<forall>x\<in>set xs. x = Fin 0"
  using foldl_fadd_eq_zero [of "Fin 0" xs] by (simp add: np_sum_def)

lemma fmul_zero_left: "fmul (Fin 0) x = Fin 0 \<or> fmul (Fin 0) x = NaN"
  by (cases x) simp_all

lemma foldl_fadd_zero_or_nan:
  "acc = Fin 0 \<or> acc = NaN \<Longrightarrow> \<forall>x\<in>set xs. x = Fin 0 \<or> x = NaN
     \<Longrightarrow> foldl fadd acc xs = Fin 0 \<or> foldl fadd acc xs = NaN"
proof (induction xs arbitrary: acc)
  case Nil
  then show ?case by simp
next
  case (Cons x xs)
  from Cons.prems have "fadd acc x = Fin 0 \<or> fadd acc x = NaN" by auto
  with Cons.IH [of "fadd acc x"] Cons.prems show ?case by simp
qed

lemma fdiv_zero_or_nan_by_zero: "x = Fin 0 \<or> x = NaN \<Longrightarrow> fdiv x (Fin 0) = NaN"
  by auto

lemma fdiv_nan_right: "fdiv x NaN = NaN"
  by (cases x) simp_all

lemma fmul_nan_left: "fmul NaN x = NaN"
  by simp

lemma fadd_nan_right: "fadd x NaN = NaN"
  by (cases x) simp_all

lemma spec_p_bar_zero_demand:
  assumes "j \<le> length demands" and "list_all fge0 (take j demands)"
    and "np_sum (take j demands) = Fin 0"
  shows "spec_p_bar fares demands j = NaN"
proof -
  from np_sum_eq_zero [OF assms(2,3)] have "\<forall>x\<in>set (take j demands). x = Fin 0" .
  then have z: "demands ! i = Fin 0" if "i < j" for i
  proof -
    from that assms(1) have "take j demands ! i \<in> set (take j demands)"
      by (intro nth_mem) simp
    with \<open>\<forall>x\<in>set (take j demands). x = Fin 0\<close> that show ?thesis by simp
  qed
  have "\<forall>x\<in>set (map (\<lambda>i. fmul (demands ! i) (fares ! i)) [0..<j]). x = Fin 0 \<or> x = NaN"
    using z fmul_zero_left by auto
  then have "np_sum (map (\<lambda>i. fmul (demands ! i) (fares ! i)) [0..<j]) = Fin 0
           \<or> np_sum (map (\<lambda>i. fmul (demands ! i) (fares ! i)) [0..<j]) = NaN"
    unfolding np_sum_def by (intro foldl_fadd_zero_or_nan) simp_all
  then show ?thesis
    using assms(3) by (simp add: spec_p_bar_def spec_S_def fdiv_zero_or_nan_by_zero)
qed

lemma spec_level_zero_demand:
  assumes "j \<le> length demands" and "list_all fge0 (take j demands)"
    and "np_sum (take j demands) = Fin 0"
  shows "spec_level probit fares demands sigmas j = NaN"
  by (simp add: spec_level_def spec_p_bar_zero_demand [OF assms] fdiv_nan_right fsub_def
      fadd_nan_right)

lemma rint_zero: "rint 0 = 0"
  by (simp add: rint_def)

lemma clamp_round_nth:
  "k < length y \<Longrightarrow>
     np_round (clamp_nan (clamp_negative y)) ! k
       = (if flt0 (y ! k) \<or> isnan (y ! k) then Fin 0 else fround (y ! k))"
  by (cases "y ! k") (simp_all add: np_round_def clamp_nan_def clamp_negative_def rint_zero)

lemma clamped_not_nan: "\<not> isnan (if flt0 v \<or> isnan v then Fin 0 else fround v)"
  by (cases v) simp_all

lemma clamp_round_not_nan:
  assumes "x \<in> set (np_round (clamp_nan (clamp_negative y)))"
  shows "\<not> isnan x"
proof -
  have len: "length (np_round (clamp_nan (clamp_negative y))) = length y"
    by (simp add: np_round_def clamp_nan_def clamp_negative_def)
  from assms obtain k where "k < length y"
    and "x = np_round (clamp_nan (clamp_negative y)) ! k"
    unfolding in_set_conv_nth len by auto
  then show ?thesis by (simp only: clamp_round_nth clamped_not_nan not_False_eq_True)
qed

text \<open>
  Claim C5. In the Gaussian mode (\<open>sigmas\<close> present and not all zero), with \<open>fares\<close>
  and \<open>demands\<close> of the same length, at least 1, \<open>EMSRb\<close> raises no error, and with
  \<open>y\<close> the levels before clamping: the returned level at each boundary \<open>j\<close> is 0
  when \<open>y[j-1]\<close> is negative or \<^verbatim>\<open>nan\<close> and the rounded \<open>y[j-1]\<close> otherwise; at every
  boundary \<open>j\<close> whose prefix \<^verbatim>\<open>demands[0:j]\<close> consists of demands that are at least 0
  and sums to 0, the returned level is 0; and no element of the returned vector
  is \<^verbatim>\<open>nan\<close>.
\<close>

theorem EMSRb_gaussian_clamps:
  assumes "length fares = length demands" and "1 \<le> length fares"
    and "\<not> np_all_zero sigmas"
  shows "\<exists>y out. EMSRb_levels probit fares demands sigmas = Inr y
           \<and> EMSRb probit fares demands (Some sigmas) = Inr out
           \<and> length out = length fares
           \<and> (\<forall>j. 1 \<le> j \<and> j < length fares \<longrightarrow>
                  out ! j = (if flt0 (y ! (j - 1)) \<or> isnan (y ! (j - 1)) then Fin 0
                             else fround (y ! (j - 1))))
           \<and> (\<forall>j. 1 \<le> j \<and> j < length fares \<and> list_all fge0 (take j demands)
                    \<and> np_sum (take j demands) = Fin 0 \<longrightarrow> out ! j = Fin 0)
           \<and> (\<forall>x\<in>set out. \<not> isnan x)"
proof -
  let ?y = "map (spec_level probit fares demands sigmas) [1..<length fares]"
  let ?out = "Fin 0 # np_round (clamp_nan (clamp_negative ?y))"
  from assms(2) have ne: "fares \<noteq> []" by auto
  have lv: "EMSRb_levels probit fares demands sigmas = Inr ?y"
    by (rule EMSRb_levels_spec [OF assms(1,2)])
  have run: "EMSRb probit fares demands (Some sigmas) = Inr ?out"
    using EMSRb_gaussian_eq [OF ne assms(3)] lv by (simp add: EMSRb_gaussian_def)
  have len: "length ?out = length fares"
    using assms(2) by (simp add: np_round_def clamp_nan_def clamp_negative_def)
  have clamp: "?out ! j = (if flt0 (?y ! (j - 1)) \<or> isnan (?y ! (j - 1)) then Fin 0
                           else fround (?y ! (j - 1)))"
    if "1 \<le> j" and "j < length fares" for j
  proof -
    from that obtain k where k: "j = Suc k" by (cases j) auto
    with that have "k < length ?y" by simp
    from clamp_round_nth [OF this] k show ?thesis by simp
  qed
  have zero: "?out ! j = Fin 0"
    if "1 \<le> j" and "j < length fares" and "list_all fge0 (take j demands)"
      and "np_sum (take j demands) = Fin 0" for j
  proof -
    from that(2) assms(1) have "j \<le> length demands" by simp
    from spec_level_zero_demand [OF this that(3,4)] that(1,2)
    have "?y ! (j - 1) = NaN" by simp
    with clamp [OF that(1,2)] show ?thesis by simp
  qed
  have nonan: "\<forall>x\<in>set ?out. \<not> isnan x"
    using clamp_round_not_nan by auto
  from lv run len clamp zero nonan show ?thesis by blast
qed

theorem EMSRb_gaussian_clamps_witness:
  "length [Fin 100, Fin 50, Fin 10] = length [Fin 0, Fin 0, Fin 7]
   \<and> 1 \<le> length [Fin 100, Fin 50, Fin 10]
   \<and> \<not> np_all_zero [Fin 2, Fin 1, Fin 3]
   \<and> list_all fge0 (take 2 [Fin 0, Fin 0, Fin 7])
   \<and> np_sum (take 2 [Fin 0, Fin 0, Fin 7]) = Fin 0
   \<and> EMSRb_levels probit_stub [Fin 100, Fin 50, Fin 10] [Fin 0, Fin 0, Fin 7]
        [Fin 2, Fin 1, Fin 3] = Inr [NaN, NaN]
   \<and> (\<exists>out. EMSRb probit_stub [Fin 100, Fin 50, Fin 10] [Fin 0, Fin 0, Fin 7]
               (Some [Fin 2, Fin 1, Fin 3]) = Inr out
             \<and> out ! 2 = Fin 0 \<and> length out = 3)
   \<and> EMSRb probit_stub [Fin 100, Fin 50, Fin 10] [Fin 0, Fin 0, Fin 7]
        (Some [Fin 2, Fin 1, Fin 3]) = Inr [Fin 0, Fin 0, Fin 0]"
proof -
  let ?f = "[Fin 100, Fin 50, Fin 10]"
  let ?d = "[Fin 0, Fin 0, Fin 7]"
  let ?s = "[Fin 2, Fin 1, Fin 3]"
  have h: "\<not> np_all_zero ?s" by (simp add: np_all_zero_def)
  have p: "list_all fge0 (take 2 ?d)" "np_sum (take 2 ?d) = Fin 0"
    by (simp_all add: np_sum_def)
  have lv: "EMSRb_levels probit_stub ?f ?d ?s = Inr [NaN, NaN]"
    by (simp add: EMSRb_levels_def EMSRb_body_def np_multiply_def np_sum_def fsub_def
        Let_def upt_rec)
  obtain out where run: "EMSRb probit_stub ?f ?d (Some ?s) = Inr out"
    and len: "length out = length ?f"
    and zero: "\<forall>j. 1 \<le> j \<and> j < length ?f \<and> list_all fge0 (take j ?d)
                 \<and> np_sum (take j ?d) = Fin 0 \<longrightarrow> out ! j = Fin 0"
    using EMSRb_gaussian_clamps [of ?f ?d ?s probit_stub] h by auto
  from zero [rule_format, of 2] p have "out ! 2 = Fin 0" by simp
  with run len have "\<exists>out. EMSRb probit_stub ?f ?d (Some ?s) = Inr out
                         \<and> out ! 2 = Fin 0 \<and> length out = 3"
    by simp
  moreover have "EMSRb probit_stub ?f ?d (Some ?s) = Inr [Fin 0, Fin 0, Fin 0]"
    using lv h
    by (simp add: EMSRb_def EMSRb_gaussian_def clamp_nan_def clamp_negative_def
        np_round_def rint_zero)
  ultimately show ?thesis using h p lv by simp
qed

text \<open>
  The sign condition on the demands of a zero prefix is needed. Demands 1 and -1
  sum to 0 while the revenue 10 - 5 does not vanish: the average is \<^verbatim>\<open>5/0 = inf\<close>,
  the ratio is 1, \<^verbatim>\<open>norm.ppf(1)\<close> is \<^verbatim>\<open>inf\<close>, and the level at that boundary is
  \<^verbatim>\<open>inf\<close>, which neither mask replaces.
\<close>

lemma EMSRb_cancelling_demands:
  "np_sum (take 2 [Fin 1, Fin (- 1), Fin 5]) = Fin 0
   \<and> EMSRb probit_stub [Fin 10, Fin 5, Fin 1] [Fin 1, Fin (- 1), Fin 5]
         (Some [Fin 1, Fin 1, Fin 1]) = Inr [Fin 0, Fin 1, PInf]"
  by (simp add: EMSRb_def EMSRb_gaussian_def EMSRb_levels_def EMSRb_body_def np_all_zero_def
      np_multiply_def np_sum_def fsub_def clamp_nan_def clamp_negative_def np_round_def
      rint_def Let_def probit_stub_def upt_rec)

section \<open>Arguments of different lengths\<close>

lemma EMSRb_body_isl:
  "isl (EMSRb_body probit fares demands sigmas j y)
     \<longleftrightarrow> isl (np_multiply (take j demands) (take j fares))"
  by (simp add: EMSRb_body_def Let_def split: sum.splits)

lemma EMSRb_loop_isl:
  "isl (EMSRb_loop probit fares demands sigmas js y)
     \<longleftrightarrow> (\<exists>j\<in>set js. isl (np_multiply (take j demands) (take j fares)))"
proof (induction js arbitrary: y)
  case Nil
  show ?case by simp
next
  case (Cons j js)
  show ?case
  proof (cases "EMSRb_body probit fares demands sigmas j y")
    case (Inl e)
    with EMSRb_body_isl [of probit fares demands sigmas j y] show ?thesis by simp
  next
    case (Inr y')
    with EMSRb_body_isl [of probit fares demands sigmas j y] Cons.IH [of y']
    show ?thesis by simp
  qed
qed

lemma np_multiply_take_isl:
  assumes "j < length fares"
  shows "isl (np_multiply (take j demands) (take j fares))
           \<longleftrightarrow> length demands < j \<and> length demands \<noteq> 1 \<and> j \<noteq> 1"
  using assms by (auto simp: np_multiply_def min_def)

lemma EMSRb_levels_isl:
  "isl (EMSRb_levels probit fares demands sigmas)
     \<longleftrightarrow> 3 \<le> length fares \<and> length demands + 1 < length fares \<and> length demands \<noteq> 1"
proof -
  have "isl (EMSRb_levels probit fares demands sigmas)
          \<longleftrightarrow> (\<exists>j. 1 \<le> j \<and> j < length fares
                   \<and> length demands < j \<and> length demands \<noteq> 1 \<and> j \<noteq> 1)"
  proof -
    have "isl (EMSRb_levels probit fares demands sigmas)
            \<longleftrightarrow> (\<exists>j\<in>set [1..<length fares].
                     isl (np_multiply (take j demands) (take j fares)))"
      by (simp only: EMSRb_levels_def EMSRb_loop_isl)
    also have "\<dots> \<longleftrightarrow> (\<exists>j\<in>set [1..<length fares].
                     length demands < j \<and> length demands \<noteq> 1 \<and> j \<noteq> 1)"
      by (intro bex_cong refl np_multiply_take_isl) simp
    also have "\<dots> \<longleftrightarrow> (\<exists>j. 1 \<le> j \<and> j < length fares
                   \<and> length demands < j \<and> length demands \<noteq> 1 \<and> j \<noteq> 1)"
      by (simp add: Bex_def conj_commute conj_left_commute)
    finally show ?thesis .
  qed
  also have "\<dots> \<longleftrightarrow> 3 \<le> length fares \<and> length demands + 1 < length fares
                       \<and> length demands \<noteq> 1"
  proof
    assume "\<exists>j. 1 \<le> j \<and> j < length fares \<and> length demands < j
                \<and> length demands \<noteq> 1 \<and> j \<noteq> 1"
    then show "3 \<le> length fares \<and> length demands + 1 < length fares
                 \<and> length demands \<noteq> 1"
      by auto
  next
    assume r: "3 \<le> length fares \<and> length demands + 1 < length fares
                 \<and> length demands \<noteq> 1"
    then have "1 \<le> length fares - 1 \<and> length fares - 1 < length fares
                 \<and> length demands < length fares - 1 \<and> length demands \<noteq> 1
                 \<and> length fares - 1 \<noteq> 1"
      by auto
    then show "\<exists>j. 1 \<le> j \<and> j < length fares \<and> length demands < j
                \<and> length demands \<noteq> 1 \<and> j \<noteq> 1"
      by blast
  qed
  finally show ?thesis .
qed

text \<open>
  Claim C7, as amended. \<open>EMSRb\<close> does not compare the lengths of its arguments. It
  raises an error exactly when \<open>fares\<close> is empty, or when in the Gaussian mode
  \<open>fares\<close> has at least three elements and \<open>demands\<close> has fewer than
  \<open>len(fares) - 1\<close> elements and not exactly one, so that the product
  \<^verbatim>\<open>demands[:j]*fares[:j]\<close> cannot be broadcast. On every other input it returns
  a vector: on every mismatch in the deterministic mode, on a longer \<open>demands\<close>,
  and on \<open>sigmas\<close> of any length.
\<close>

theorem EMSRb_error_iff:
  "isl (EMSRb probit fares demands sigmas)
     \<longleftrightarrow> fares = []
         \<or> (\<not> deterministic sigmas \<and> 3 \<le> length fares
              \<and> length demands + 1 < length fares \<and> length demands \<noteq> 1)"
proof (cases "fares = []")
  case True
  then show ?thesis by (simp add: EMSRb_def)
next
  case False
  show ?thesis
  proof (cases "deterministic sigmas")
    case True
    with False EMSRb_deterministic_eq [OF False True, of probit demands]
    show ?thesis by (simp add: EMSRb_deterministic_def)
  next
    case nd: False
    then obtain s where s: "sigmas = Some s" and nz: "\<not> np_all_zero s"
      by (auto simp: deterministic_def split: option.splits)
    have "isl (EMSRb probit fares demands sigmas)
            \<longleftrightarrow> isl (EMSRb_levels probit fares demands s)"
      using EMSRb_gaussian_eq [OF False nz, of probit demands] s
      by (simp add: EMSRb_gaussian_def split: sum.splits)
    with False nd show ?thesis by (simp add: EMSRb_levels_isl)
  qed
qed

theorem EMSRb_error_iff_witness:
  "\<not> deterministic (Some [Fin 1, Fin 1])
   \<and> isl (EMSRb probit_stub [Fin 100, Fin 75, Fin 50, Fin 25] [Fin 10, Fin 20]
             (Some [Fin 1, Fin 1]))
   \<and> \<not> isl (EMSRb probit_stub [Fin 100, Fin 75] [Fin 10, Fin 20, Fin 30]
             (Some [Fin 1, Fin 1]))"
proof -
  have nd: "\<not> deterministic (Some [Fin 1, Fin 1])"
    by (simp add: deterministic_def np_all_zero_def)
  from nd have "isl (EMSRb probit_stub [Fin 100, Fin 75, Fin 50, Fin 25] [Fin 10, Fin 20]
             (Some [Fin 1, Fin 1]))"
    by (subst EMSRb_error_iff) simp
  moreover from nd have "\<not> isl (EMSRb probit_stub [Fin 100, Fin 75] [Fin 10, Fin 20, Fin 30]
             (Some [Fin 1, Fin 1]))"
    by (subst EMSRb_error_iff) simp
  ultimately show ?thesis using nd by simp
qed

text \<open>
  Claim C7 as stated fails: with three fares, two demands and no sigmas, \<open>EMSRb\<close>
  raises nothing and returns \<open>[0, 10]\<close>, computed from the demands alone.
\<close>

theorem EMSRb_mismatch_counterexample:
  "length [Fin 100, Fin 75, Fin 50] \<noteq> length [Fin 10, Fin 20]
   \<and> EMSRb probit_stub [Fin 100, Fin 75, Fin 50] [Fin 10, Fin 20] None
       = Inr [Fin 0, Fin 10]"
  by (simp add: EMSRb_def EMSRb_deterministic_def np_round_def rint_def Let_def)

section \<open>Gathering and re-expanding in EMSRb\_MR\<close>

lemma np_where_not_nan_all_nan:
  "\<forall>x\<in>set a. isnan x \<Longrightarrow> np_where_not_nan a = []"
  by (simp add: np_where_not_nan_def filter_empty_conv)

lemma np_where_not_nan_none_nan:
  "\<forall>x\<in>set a. \<not> isnan x \<Longrightarrow> np_where_not_nan a = [0..<length a]"
  by (simp add: np_where_not_nan_def filter_id_conv)

lemma np_where_not_nan_bound: "i \<in> set (np_where_not_nan a) \<Longrightarrow> i < length a"
  by (simp add: np_where_not_nan_def)

lemma np_where_not_nan_distinct: "distinct (np_where_not_nan a)"
  by (simp add: np_where_not_nan_def)

lemma np_take_in_range:
  "\<forall>i\<in>set idx. i < length a \<Longrightarrow> np_take a idx = Inr (map (\<lambda>i. a ! i) idx)"
  by (simp add: np_take_def list_all_iff)

lemma np_take_all: "np_take a [0..<length a] = Inr a"
  by (simp add: np_take_def list_all_iff map_nth)

lemma np_where_not_nan_first:
  assumes "i < length a" and "\<not> isnan (a ! i)" and "\<forall>k<i. isnan (a ! k)"
  shows "\<exists>rest. np_where_not_nan a = i # rest"
proof -
  have "[0..<length a] = [0..<i] @ i # [Suc i..<length a]"
    using assms(1) by (metis less_imp_add_positive upt_add_eq_append upt_conv_Cons zero_le)
  moreover have "filter (\<lambda>i. \<not> isnan (a ! i)) [0..<i] = []"
    using assms(3) by (simp add: filter_empty_conv)
  ultimately show ?thesis
    using assms(2) by (simp add: np_where_not_nan_def)
qed

lemma np_where_not_nan_cases:
  "np_where_not_nan a = []
     \<or> (\<exists>i<length a. \<not> isnan (a ! i) \<and> (\<forall>k<i. isnan (a ! k)))"
proof (cases "\<exists>i. i < length a \<and> \<not> isnan (a ! i)")
  case False
  then have "np_where_not_nan a = []"
    unfolding np_where_not_nan_def filter_empty_conv by simp
  then show ?thesis ..
next
  case True
  define i where "i = (LEAST i. i < length a \<and> \<not> isnan (a ! i))"
  from True have i: "i < length a \<and> \<not> isnan (a ! i)"
    unfolding i_def by (rule LeastI_ex)
  have "isnan (a ! k)" if "k < i" for k
  proof -
    from that have "\<not> (k < length a \<and> \<not> isnan (a ! k))"
      unfolding i_def by (rule not_less_Least)
    moreover from that i have "k < length a" by simp
    ultimately show ?thesis by blast
  qed
  with i show ?thesis by blast
qed

subsection \<open>The re-expansion\<close>

lemma length_fold_update:
  "length (fold (\<lambda>(i, v) a. a[i := v]) ps a) = length a"
  by (induction ps arbitrary: a) (simp_all add: case_prod_beta)

lemma fold_update_other:
  "k \<notin> fst ` set ps \<Longrightarrow> fold (\<lambda>(i, v) a. a[i := v]) ps a ! k = a ! k"
  by (induction ps arbitrary: a) (auto simp: case_prod_beta)

lemma fold_update_hit:
  "distinct (map fst ps) \<Longrightarrow> (i, v) \<in> set ps \<Longrightarrow> i < length a
     \<Longrightarrow> fold (\<lambda>(i, v) a. a[i := v]) ps a ! i = v"
proof (induction ps arbitrary: a)
  case Nil
  then show ?case by simp
next
  case (Cons p ps)
  show ?case
  proof (cases "p = (i, v)")
    case True
    with Cons.prems have "i \<notin> fst ` set ps" by auto
    from fold_update_other [OF this] True Cons.prems(3) show ?thesis by simp
  next
    case False
    with Cons.prems have "(i, v) \<in> set ps" and "distinct (map fst ps)" by auto
    with Cons.IH [of "a[fst p := snd p]"] Cons.prems(3) show ?thesis
      by (simp add: case_prod_beta)
  qed
qed

lemma length_fill_nan: "length (fill_nan n indices vals) = n"
  by (simp add: fill_nan_def length_fold_update)

lemma fill_nan_other:
  "k < n \<Longrightarrow> k \<notin> set indices \<Longrightarrow> fill_nan n indices vals ! k = Fin 0"
proof -
  assume k: "k < n" and "k \<notin> set indices"
  then have "k \<notin> fst ` set (zip indices vals)"
    by (auto dest: set_zip_leftD)
  from fold_update_other [OF this] k show ?thesis by (simp add: fill_nan_def)
qed

lemma fill_nan_hit:
  assumes "distinct indices" and "m < length indices" and "m < length vals"
    and "indices ! m < n"
  shows "fill_nan n indices vals ! (indices ! m) = vals ! m"
proof -
  have "distinct (map fst (zip indices vals))"
    using assms(1) by (simp add: map_fst_zip_take)
  moreover have "(indices ! m, vals ! m) \<in> set (zip indices vals)"
    using assms(2,3) by (auto simp: set_zip)
  ultimately show ?thesis
    using assms(4) unfolding fill_nan_def by (intro fold_update_hit) simp_all
qed

lemma fill_nan_all:
  assumes "length vals = n"
  shows "fill_nan n [0..<n] vals = vals"
proof (rule nth_equalityI)
  show "length (fill_nan n [0..<n] vals) = length vals"
    using assms by (simp add: length_fill_nan)
next
  fix k assume "k < length (fill_nan n [0..<n] vals)"
  then have k: "k < n" by (simp add: length_fill_nan)
  with assms fill_nan_hit [of "[0..<n]" k vals n]
  show "fill_nan n [0..<n] vals ! k = vals ! k" by simp
qed

subsection \<open>What EMSRb returns on vectors of one length\<close>

lemma EMSRb_returns:
  assumes "length fares = length demands" and "1 \<le> length fares"
  shows "\<exists>out. EMSRb probit fares demands sigmas = Inr out
           \<and> length out = length fares \<and> out ! 0 = Fin 0"
proof -
  from assms(2) have ne: "fares \<noteq> []" by auto
  have det: "\<exists>out. EMSRb_deterministic demands = Inr out
               \<and> length out = length fares \<and> out ! 0 = Fin 0"
    using assms by (simp add: EMSRb_deterministic_def np_round_def length_np_cumsum)
  have gau: "\<exists>out. EMSRb_gaussian probit fares demands s = Inr out
               \<and> length out = length fares \<and> out ! 0 = Fin 0" for s
    using assms(2)
    by (simp add: EMSRb_gaussian_def EMSRb_levels_spec [OF assms] np_round_def
        clamp_nan_def clamp_negative_def)
  show ?thesis
  proof (cases "deterministic sigmas")
    case True
    with det EMSRb_deterministic_eq [OF ne True, of probit demands] show ?thesis by simp
  next
    case False
    then obtain s where "sigmas = Some s" and "\<not> np_all_zero s"
      by (auto simp: deterministic_def split: option.splits)
    with gau [of s] EMSRb_gaussian_eq [OF ne, of s probit demands] show ?thesis by simp
  qed
qed

lemma EMSRb_zero_sigmas:
  "EMSRb probit fares demands (Some (replicate n (Fin 0))) = EMSRb probit fares demands None"
  by (simp add: EMSRb_def np_all_zero_def list_all_iff)


section \<open>EMSRb\_MR on the efficient classes\<close>

lemma EMSRb_MR_no_efficient:
  assumes "fare_transformation fares demands cap = (af, ad)"
    and "np_where_not_nan af = []"
  shows "EMSRb_MR probit fare_transformation fares demands sigmas cap
           = Inr (replicate (length fares) (Fin 0))"
  using assms by (simp add: EMSRb_MR_def Let_def np_take_def)

lemma EMSRb_MR_efficient:
  assumes ft: "fare_transformation fares demands cap = (af, ad)"
    and laf: "length af = length fares" and lad: "length ad = length fares"
    and ls: "case sigmas of None \<Rightarrow> True | Some s \<Rightarrow> length s = length fares"
    and idx: "np_where_not_nan af = idx" and ne: "idx \<noteq> []"
    and s1: "s1 = (case sigmas of None \<Rightarrow> replicate (length fares) (Fin 0) | Some s \<Rightarrow> s)"
  shows "\<exists>lv. EMSRb probit (map (\<lambda>i. af ! i) idx) (map (\<lambda>i. ad ! i) idx)
                 (Some (map (\<lambda>i. s1 ! i) idx)) = Inr lv
              \<and> length lv = length idx \<and> lv ! 0 = Fin 0
              \<and> EMSRb_MR probit fare_transformation fares demands sigmas cap
                  = Inr (fill_nan (length fares) idx lv)"
proof -
  have bound: "\<forall>i\<in>set idx. i < length fares"
    using np_where_not_nan_bound [of _ af] idx laf by auto
  have ls1: "length s1 = length fares"
    using ls s1 by (cases sigmas) simp_all
  have t1: "np_take af idx = Inr (map (\<lambda>i. af ! i) idx)"
    using bound laf by (intro np_take_in_range) simp
  have t2: "np_take ad idx = Inr (map (\<lambda>i. ad ! i) idx)"
    using bound lad by (intro np_take_in_range) simp
  have t3: "np_take s1 idx = Inr (map (\<lambda>i. s1 ! i) idx)"
    using bound ls1 by (intro np_take_in_range) simp
  have "length (map (\<lambda>i. af ! i) idx) = length (map (\<lambda>i. ad ! i) idx)"
    and "1 \<le> length (map (\<lambda>i. af ! i) idx)"
    using ne by (simp_all add: Suc_le_eq)
  from EMSRb_returns [OF this, of probit "Some (map (\<lambda>i. s1 ! i) idx)"]
  obtain lv where lv: "EMSRb probit (map (\<lambda>i. af ! i) idx) (map (\<lambda>i. ad ! i) idx)
                 (Some (map (\<lambda>i. s1 ! i) idx)) = Inr lv"
    and len: "length lv = length idx" and zero: "lv ! 0 = Fin 0"
    by auto
  have "EMSRb_MR probit fare_transformation fares demands sigmas cap
          = Inr (fill_nan (length fares) idx lv)"
    using ft idx ne t1 t2 t3 lv s1 by (simp add: EMSRb_MR_def Let_def)
  with lv len zero show ?thesis by simp
qed

lemma EMSRb_MR_first_efficient:
  assumes ft: "fare_transformation fares demands cap = (af, ad)"
    and laf: "length af = length fares" and lad: "length ad = length fares"
    and ls: "case sigmas of None \<Rightarrow> True | Some s \<Rightarrow> length s = length fares"
    and i: "i < length af" and eff: "\<not> isnan (af ! i)" and first: "\<forall>k<i. isnan (af ! k)"
  shows "\<exists>out. EMSRb_MR probit fare_transformation fares demands sigmas cap = Inr out
           \<and> length out = length fares \<and> out ! i = Fin 0 \<and> (\<forall>k<i. out ! k = Fin 0)"
proof -
  from np_where_not_nan_first [OF i eff first]
  obtain rest where idx: "np_where_not_nan af = i # rest" by auto
  define s1 where "s1 = (case sigmas of None \<Rightarrow> replicate (length fares) (Fin 0) | Some s \<Rightarrow> s)"
  have "i # rest \<noteq> []" by simp
  from EMSRb_MR_efficient [where fare_transformation = fare_transformation and fares = fares
      and demands = demands and cap = cap and probit = probit, OF ft laf lad ls idx this s1_def]
  obtain lv where len: "length lv = length (i # rest)" and zero: "lv ! 0 = Fin 0"
    and run: "EMSRb_MR probit fare_transformation fares demands sigmas cap
                = Inr (fill_nan (length fares) (i # rest) lv)"
    by auto
  have "distinct (i # rest)"
    using np_where_not_nan_distinct [of af] idx by simp
  from fill_nan_hit [OF this, of 0 lv "length fares"] len i laf zero
  have hit: "fill_nan (length fares) (i # rest) lv ! i = Fin 0" by simp
  have other: "fill_nan (length fares) (i # rest) lv ! k = Fin 0" if "k < i" for k
  proof -
    have "k \<notin> set (np_where_not_nan af)"
      using that first by (simp add: np_where_not_nan_def)
    with idx have "k \<notin> set (i # rest)" by simp
    moreover from that i laf have "k < length fares" by simp
    ultimately show ?thesis by (intro fill_nan_other)
  qed
  from run hit other show ?thesis by (simp add: length_fill_nan)
qed


lemmas EMSRb_MR_eval =
  EMSRb_MR_def ft_mask_def np_where_not_nan_def np_take_def fill_nan_def EMSRb_def
  EMSRb_deterministic_def np_all_zero_def np_round_def rint_def Let_def

text \<open>
  Claim C6. When the fare transformation marks every class inefficient (every
  adjusted fare is \<^verbatim>\<open>nan\<close>), \<open>EMSRb_MR\<close> returns the all-zero vector of the length of
  \<open>fares\<close> and raises no error.
\<close>

theorem EMSRb_MR_all_inefficient:
  assumes "fare_transformation fares demands cap = (adjusted_fares, adjusted_demand)"
    and "\<forall>x\<in>set adjusted_fares. isnan x"
  shows "EMSRb_MR probit fare_transformation fares demands sigmas cap
           = Inr (replicate (length fares) (Fin 0))"
  by (rule EMSRb_MR_no_efficient [where fare_transformation = fare_transformation
        and fares = fares and demands = demands and cap = cap,
        OF assms(1) np_where_not_nan_all_nan [OF assms(2)]])

theorem EMSRb_MR_all_inefficient_witness:
  "ft_mask [False, False, False] [Fin 100, Fin 75, Fin 50] [Fin 10, Fin 20, Fin 30] None
     = ([NaN, NaN, NaN], [Fin 10, Fin 20, Fin 30])
   \<and> list_all isnan [NaN, NaN, NaN]
   \<and> EMSRb_MR probit_stub (ft_mask [False, False, False]) [Fin 100, Fin 75, Fin 50]
        [Fin 10, Fin 20, Fin 30] None None = Inr [Fin 0, Fin 0, Fin 0]"
proof -
  have ft: "ft_mask [False, False, False] [Fin 100, Fin 75, Fin 50] [Fin 10, Fin 20, Fin 30] None
              = ([NaN, NaN, NaN], [Fin 10, Fin 20, Fin 30])"
    by (simp add: ft_mask_def)
  have nan: "\<forall>x\<in>set [NaN, NaN, NaN]. isnan x" by simp
  from EMSRb_MR_all_inefficient [of "ft_mask [False, False, False]", OF ft nan, of probit_stub None]
  have "EMSRb_MR probit_stub (ft_mask [False, False, False]) [Fin 100, Fin 75, Fin 50]
        [Fin 10, Fin 20, Fin 30] None None = Inr [Fin 0, Fin 0, Fin 0]"
    by (simp add: numeral_3_eq_3)
  with ft show ?thesis by simp
qed

text \<open>
  Claim C3. When the fare transformation returns adjusted fares and adjusted
  demand of the length \<open>N\<close> of \<open>fares\<close>, \<open>N\<close> is at least 1, \<open>sigmas\<close> is absent or of
  length \<open>N\<close>, and no adjusted fare is \<^verbatim>\<open>nan\<close>, the result of \<open>EMSRb_MR\<close> is the
  result of \<open>EMSRb\<close> on the whole adjusted fares, the whole adjusted demand and
  \<open>sigmas\<close>, a vector of length \<open>N\<close>: the re-expansion adds no zero.
\<close>

theorem EMSRb_MR_all_efficient:
  assumes ft: "fare_transformation fares demands cap = (adjusted_fares, adjusted_demand)"
    and laf: "length adjusted_fares = length fares"
    and lad: "length adjusted_demand = length fares"
    and ls: "case sigmas of None \<Rightarrow> True | Some s \<Rightarrow> length s = length fares"
    and n: "1 \<le> length fares"
    and eff: "\<forall>x\<in>set adjusted_fares. \<not> isnan x"
  shows "EMSRb_MR probit fare_transformation fares demands sigmas cap
           = EMSRb probit adjusted_fares adjusted_demand sigmas
         \<and> (\<exists>out. EMSRb probit adjusted_fares adjusted_demand sigmas = Inr out
                \<and> length out = length fares)"
proof -
  define s1 where "s1 = (case sigmas of None \<Rightarrow> replicate (length fares) (Fin 0) | Some s \<Rightarrow> s)"
  have ls1: "length s1 = length fares"
    using ls by (cases sigmas) (simp_all add: s1_def)
  have idx: "np_where_not_nan adjusted_fares = [0..<length fares]"
    using np_where_not_nan_none_nan [OF eff] laf by simp
  have ne: "[0..<length fares] \<noteq> []" using n by auto
  have same: "EMSRb probit adjusted_fares adjusted_demand (Some s1)
                = EMSRb probit adjusted_fares adjusted_demand sigmas"
    by (cases sigmas) (simp_all add: s1_def EMSRb_zero_sigmas)
  have whole: "map (\<lambda>i. a ! i) [0..<length fares] = a" if "length a = length fares" for a :: ndarray
    using that map_nth [of a] by simp
  from EMSRb_MR_efficient [where fare_transformation = fare_transformation and fares = fares
      and demands = demands and cap = cap and probit = probit, OF ft laf lad ls idx ne s1_def]
  obtain lv where lv: "EMSRb probit adjusted_fares adjusted_demand (Some s1) = Inr lv"
    and len: "length lv = length fares"
    and run: "EMSRb_MR probit fare_transformation fares demands sigmas cap
                = Inr (fill_nan (length fares) [0..<length fares] lv)"
    by (auto simp: whole laf lad ls1)
  from run len have "EMSRb_MR probit fare_transformation fares demands sigmas cap = Inr lv"
    by (simp add: fill_nan_all)
  with lv len same show ?thesis by simp
qed

theorem EMSRb_MR_all_efficient_witness:
  "ft_mask [True, True, True] [Fin 100, Fin 75, Fin 50] [Fin 10, Fin 20, Fin 30] None
     = ([Fin 100, Fin 75, Fin 50], [Fin 10, Fin 20, Fin 30])
   \<and> list_all (\<lambda>x. \<not> isnan x) [Fin 100, Fin 75, Fin 50]
   \<and> EMSRb_MR probit_stub (ft_mask [True, True, True]) [Fin 100, Fin 75, Fin 50]
        [Fin 10, Fin 20, Fin 30] None None
       = EMSRb probit_stub [Fin 100, Fin 75, Fin 50] [Fin 10, Fin 20, Fin 30] None
   \<and> EMSRb probit_stub [Fin 100, Fin 75, Fin 50] [Fin 10, Fin 20, Fin 30] None
       = Inr [Fin 0, Fin 10, Fin 30]"
proof -
  let ?f = "[Fin 100, Fin 75, Fin 50]"
  let ?d = "[Fin 10, Fin 20, Fin 30]"
  have ft: "ft_mask [True, True, True] ?f ?d None = (?f, ?d)"
    by (simp add: ft_mask_def)
  have eff: "\<forall>x\<in>set ?f. \<not> isnan x" by simp
  have l: "length ?f = length ?f" "length ?d = length ?f" "1 \<le> length ?f"
    and s: "case None :: ndarray option of None \<Rightarrow> True | Some s \<Rightarrow> length s = length ?f"
    by simp_all
  have "EMSRb_MR probit_stub (ft_mask [True, True, True]) ?f ?d None None
          = EMSRb probit_stub ?f ?d None"
    using EMSRb_MR_all_efficient [of "ft_mask [True, True, True]" ?f ?d None ?f ?d None
        probit_stub, OF ft l(1,2) s l(3) eff]
    by (rule conjunct1)
  moreover have "EMSRb probit_stub ?f ?d None = Inr [Fin 0, Fin 10, Fin 30]"
    by (simp add: EMSRb_def EMSRb_deterministic_def np_round_def rint_def Let_def)
  ultimately show ?thesis using ft by simp
qed

text \<open>
  Claim C10. When the fare transformation returns vectors of the length of
  \<open>fares\<close>, \<open>sigmas\<close> is absent or of that length, and \<open>i\<close> is the smallest index whose
  adjusted fare is not \<^verbatim>\<open>nan\<close>, \<open>EMSRb_MR\<close> returns a vector of that length whose
  element \<open>i\<close> is 0 and whose elements before \<open>i\<close> are 0.
\<close>

theorem EMSRb_MR_first_efficient_zero:
  assumes "fare_transformation fares demands cap = (adjusted_fares, adjusted_demand)"
    and "length adjusted_fares = length fares"
    and "length adjusted_demand = length fares"
    and "case sigmas of None \<Rightarrow> True | Some s \<Rightarrow> length s = length fares"
    and "i < length adjusted_fares" and "\<not> isnan (adjusted_fares ! i)"
    and "\<forall>k<i. isnan (adjusted_fares ! k)"
  shows "\<exists>out. EMSRb_MR probit fare_transformation fares demands sigmas cap = Inr out
           \<and> length out = length fares \<and> out ! i = Fin 0 \<and> (\<forall>k<i. out ! k = Fin 0)"
  using assms by (rule EMSRb_MR_first_efficient)

theorem EMSRb_MR_first_efficient_zero_witness:
  "ft_mask [False, True, True] [Fin 100, Fin 75, Fin 50] [Fin 10, Fin 20, Fin 30] None
     = ([NaN, Fin 75, Fin 50], [Fin 10, Fin 20, Fin 30])
   \<and> \<not> isnan ([NaN, Fin 75, Fin 50] ! 1) \<and> isnan ([NaN, Fin 75, Fin 50] ! 0)
   \<and> EMSRb_MR probit_stub (ft_mask [False, True, True]) [Fin 100, Fin 75, Fin 50]
        [Fin 10, Fin 20, Fin 30] None None = Inr [Fin 0, Fin 0, Fin 20]
   \<and> (\<exists>out. EMSRb_MR probit_stub (ft_mask [False, True, True]) [Fin 100, Fin 75, Fin 50]
        [Fin 10, Fin 20, Fin 30] None None = Inr out \<and> out ! 1 = Fin 0 \<and> out ! 0 = Fin 0)"
proof -
  let ?f = "[Fin 100, Fin 75, Fin 50]"
  let ?d = "[Fin 10, Fin 20, Fin 30]"
  let ?af = "[NaN, Fin 75, Fin 50]"
  have ft: "ft_mask [False, True, True] ?f ?d None = (?af, ?d)"
    by (simp add: ft_mask_def)
  have first: "\<forall>k<1. isnan (?af ! k)" by simp
  have l: "length ?af = length ?f" "length ?d = length ?f" "1 < length ?af"
    and e: "\<not> isnan (?af ! 1)"
    and s: "case None :: ndarray option of None \<Rightarrow> True | Some s \<Rightarrow> length s = length ?f"
    by simp_all
  from EMSRb_MR_first_efficient_zero [of "ft_mask [False, True, True]" ?f ?d None ?af ?d
        None 1 probit_stub, OF ft l(1,2) s l(3) e first]
  obtain out where "EMSRb_MR probit_stub (ft_mask [False, True, True]) ?f ?d None None = Inr out"
    and "out ! 1 = Fin 0" and "\<forall>k<1. out ! k = Fin 0"
    by blast
  then have ex: "\<exists>out. EMSRb_MR probit_stub (ft_mask [False, True, True]) ?f ?d None None = Inr out
          \<and> out ! 1 = Fin 0 \<and> out ! 0 = Fin 0"
    by simp
  have run: "EMSRb_MR probit_stub (ft_mask [False, True, True]) ?f ?d None None
               = Inr [Fin 0, Fin 0, Fin 20]"
    by (simp add: EMSRb_MR_eval)
  have n0: "isnan (?af ! 0)" by simp
  show ?thesis by (intro conjI) (fact ft e n0 run ex)+
qed

text \<open>
  Claim C4. When \<open>fares\<close> and \<open>demands\<close> have the same length \<open>N\<close>, at least 1,
  \<open>sigmas\<close> is absent or of length \<open>N\<close>, and the fare transformation returns vectors
  of length \<open>N\<close>, both \<open>EMSRb\<close> and \<open>EMSRb_MR\<close> return a vector, and element 0 of it
  is 0.
\<close>

theorem top_class_unprotected:
  assumes "length fares = length demands" and "1 \<le> length fares"
    and "case sigmas of None \<Rightarrow> True | Some s \<Rightarrow> length s = length fares"
    and "fare_transformation fares demands cap = (adjusted_fares, adjusted_demand)"
    and "length adjusted_fares = length fares"
    and "length adjusted_demand = length fares"
  shows "(\<exists>out. EMSRb probit fares demands sigmas = Inr out \<and> out ! 0 = Fin 0)
         \<and> (\<exists>out. EMSRb_MR probit fare_transformation fares demands sigmas cap = Inr out
                \<and> out ! 0 = Fin 0)"
proof (rule conjI)
  from EMSRb_returns [OF assms(1,2), of probit sigmas]
  show "\<exists>out. EMSRb probit fares demands sigmas = Inr out \<and> out ! 0 = Fin 0"
    by blast
next
  from np_where_not_nan_cases [of adjusted_fares]
  show "\<exists>out. EMSRb_MR probit fare_transformation fares demands sigmas cap = Inr out
          \<and> out ! 0 = Fin 0"
  proof (rule disjE)
    assume none: "np_where_not_nan adjusted_fares = []"
    have run: "EMSRb_MR probit fare_transformation fares demands sigmas cap
                 = Inr (replicate (length fares) (Fin 0))"
      by (rule EMSRb_MR_no_efficient [where fare_transformation = fare_transformation
            and fares = fares and demands = demands and cap = cap, OF assms(4) none])
    from assms(2) have "0 < length fares" by linarith
    then have "replicate (length fares) (Fin 0 :: npfloat) ! 0 = Fin 0"
      by (rule nth_replicate)
    with run show ?thesis by blast
  next
    assume "\<exists>i<length adjusted_fares. \<not> isnan (adjusted_fares ! i)
              \<and> (\<forall>k<i. isnan (adjusted_fares ! k))"
    then obtain i where i: "i < length adjusted_fares" and eff: "\<not> isnan (adjusted_fares ! i)"
      and first: "\<forall>k<i. isnan (adjusted_fares ! k)"
      by blast
    from EMSRb_MR_first_efficient [where fare_transformation = fare_transformation
        and fares = fares and demands = demands and cap = cap and probit = probit,
        OF assms(4,5,6,3) i eff first]
    obtain out where run: "EMSRb_MR probit fare_transformation fares demands sigmas cap = Inr out"
      and hit: "out ! i = Fin 0" and before: "\<forall>k<i. out ! k = Fin 0"
      by blast
    have "out ! 0 = Fin 0"
    proof (cases "i = 0")
      case True
      with hit show ?thesis by simp
    next
      case False
      then have "0 < i" by simp
      with before show ?thesis by blast
    qed
    with run show ?thesis by blast
  qed
qed

theorem top_class_unprotected_witness:
  "ft_mask [True, False, True] [Fin 100, Fin 75, Fin 50] [Fin 10, Fin 20, Fin 30] None
     = ([Fin 100, NaN, Fin 50], [Fin 10, Fin 20, Fin 30])
   \<and> EMSRb probit_stub [Fin 100, Fin 75, Fin 50] [Fin 10, Fin 20, Fin 30] None
       = Inr [Fin 0, Fin 10, Fin 30]
   \<and> EMSRb_MR probit_stub (ft_mask [True, False, True]) [Fin 100, Fin 75, Fin 50]
        [Fin 10, Fin 20, Fin 30] None None = Inr [Fin 0, Fin 0, Fin 10]
   \<and> (\<exists>out. EMSRb_MR probit_stub (ft_mask [True, False, True]) [Fin 100, Fin 75, Fin 50]
        [Fin 10, Fin 20, Fin 30] None None = Inr out \<and> out ! 0 = Fin 0)"
proof -
  let ?f = "[Fin 100, Fin 75, Fin 50]"
  let ?d = "[Fin 10, Fin 20, Fin 30]"
  let ?af = "[Fin 100, NaN, Fin 50]"
  have ft: "ft_mask [True, False, True] ?f ?d None = (?af, ?d)"
    by (simp add: ft_mask_def)
  have l: "length ?f = length ?d" "1 \<le> length ?f" "length ?af = length ?f"
      "length ?d = length ?f"
    and s: "case None :: ndarray option of None \<Rightarrow> True | Some s \<Rightarrow> length s = length ?f"
    by simp_all
  have ex: "\<exists>out. EMSRb_MR probit_stub (ft_mask [True, False, True]) ?f ?d None None = Inr out
          \<and> out ! 0 = Fin 0"
    using top_class_unprotected [of ?f ?d None "ft_mask [True, False, True]" None ?af ?d
        probit_stub, OF l(1,2) s ft l(3,4)]
    by (rule conjunct2)
  have run: "EMSRb probit_stub ?f ?d None = Inr [Fin 0, Fin 10, Fin 30]"
    by (simp add: EMSRb_def EMSRb_deterministic_def np_round_def rint_def Let_def)
  have run_MR: "EMSRb_MR probit_stub (ft_mask [True, False, True]) ?f ?d None None
                  = Inr [Fin 0, Fin 0, Fin 10]"
    by (simp add: EMSRb_MR_eval)
  show ?thesis by (intro conjI) (fact ft run run_MR ex)+
qed

section \<open>The store: only new arrays are written\<close>

lemma unchanged_refl: "unchanged h h"
  by (simp add: unchanged_def)

lemma unchanged_trans:
  assumes "unchanged h h1" and "unchanged h1 h2"
  shows "unchanged h h2"
proof -
  from assms have l: "length h \<le> length h1" "length h1 \<le> length h2"
    and t: "take (length h) h1 = h" "take (length h1) h2 = h1"
    by (simp_all add: unchanged_def)
  have "take (length h) h2 = take (length h) (take (length h1) h2)"
    using l(1) by (simp add: min_def)
  with t have "take (length h) h2 = h" by simp
  with l show ?thesis by (simp add: unchanged_def)
qed

lemma unchanged_alloc: "alloc a h = (r, h') \<Longrightarrow> unchanged h h'"
  by (auto simp: alloc_def unchanged_def)

lemma unchanged_nth:
  assumes "unchanged h h'" and "a < length h"
  shows "h' ! a = h ! a"
proof -
  from assms(1) have "take (length h) h' = h" by (simp add: unchanged_def)
  then have "take (length h) h' ! a = h ! a" by simp
  with assms(2) show ?thesis by simp
qed

lemma unchanged_append: "unchanged h h' \<Longrightarrow> unchanged h (h' @ xs)"
  by (simp add: unchanged_def)

lemma unchanged_update:
  "unchanged h h' \<Longrightarrow> length h \<le> y \<Longrightarrow> unchanged h (h'[y := v])"
  by (simp add: unchanged_def)

lemma EMSRb_loop_st_unchanged:
  "unchanged h0 h \<Longrightarrow> length h0 \<le> y
     \<Longrightarrow> unchanged h0 (snd (EMSRb_loop_st probit fares demands sigmas js y h))"
proof (induction js arbitrary: h)
  case Nil
  then show ?case by simp
next
  case (Cons j js)
  show ?case
  proof (cases "EMSRb_body probit (h ! fares) (h ! demands) (h ! sigmas) j (h ! y)")
    case (Inl e)
    with Cons.prems show ?thesis by simp
  next
    case (Inr y')
    from Cons.prems have "unchanged h0 (h[y := y'])" by (simp add: unchanged_update)
    from Cons.IH [OF this Cons.prems(2)] Inr show ?thesis by simp
  qed
qed

lemma EMSRb_deterministic_st_unchanged:
  "unchanged h (snd (EMSRb_deterministic_st demands h))"
proof -
  have "\<exists>xs. snd (EMSRb_deterministic_st demands h) = h @ xs"
    by (simp add: EMSRb_deterministic_st_def alloc_def Let_def)
  then show ?thesis by (auto simp: unchanged_append unchanged_refl)
qed

lemma EMSRb_gaussian_st_unchanged:
  assumes "unchanged h0 h" and "length h0 \<le> y"
  shows "unchanged h0 (snd (EMSRb_gaussian_st probit fares demands sigmas y h))"
proof (cases "EMSRb_loop_st probit fares demands sigmas [1..<length (h ! fares)] y h")
  case (Pair res h1)
  from EMSRb_loop_st_unchanged [OF assms, of probit fares demands sigmas
      "[1..<length (h ! fares)]"] Pair
  have u: "unchanged h0 h1" by simp
  show ?thesis
  proof (cases res)
    case (Inl e)
    with Pair u show ?thesis by (simp add: EMSRb_gaussian_st_def)
  next
    case (Inr v)
    let ?h2 = "h1[y := clamp_negative (h1 ! y)]"
    let ?h3 = "?h2[y := clamp_nan (?h2 ! y)]"
    from u assms(2) have "unchanged h0 ?h3" by (simp add: unchanged_update)
    moreover have "\<exists>xs. snd (EMSRb_gaussian_st probit fares demands sigmas y h) = ?h3 @ xs"
      using Pair Inr by (simp add: EMSRb_gaussian_st_def alloc_def Let_def)
    ultimately show ?thesis by (auto simp: unchanged_append)
  qed
qed

lemma EMSRb_st_unchanged: "unchanged h (snd (EMSRb_st probit fares demands sigmas h))"
proof (cases "length (h ! fares) = 0")
  case True
  then show ?thesis by (simp add: EMSRb_st_def unchanged_refl)
next
  case False
  let ?h1 = "h @ [replicate (length (h ! fares) - 1) (Fin 0)]"
  have u: "unchanged h ?h1" by (simp add: unchanged_def)
  have det: "unchanged h (snd (EMSRb_deterministic_st demands ?h1))"
    by (rule unchanged_trans [OF u EMSRb_deterministic_st_unchanged])
  have gau: "unchanged h (snd (EMSRb_gaussian_st probit fares demands s (length h) ?h1))" for s
    by (rule EMSRb_gaussian_st_unchanged [OF u]) simp
  from False det gau show ?thesis
    by (simp add: EMSRb_st_def alloc_def split: option.splits)
qed

lemma EMSRb_st_result_unchanged:
  assumes "EMSRb_st probit fares demands sigmas h1 = (res, h2)" and "unchanged h h1"
  shows "unchanged h h2"
proof -
  from EMSRb_st_unchanged [of h1 probit fares demands sigmas] assms(1)
  have "unchanged h1 h2" by simp
  with assms(2) show ?thesis by (rule unchanged_trans)
qed

lemma EMSRb_MR_st_unchanged:
  "unchanged h (snd (EMSRb_MR_st probit fare_transformation fares demands sigmas cap h))"
proof -
  obtain sigmas1 h1 where s1: "(case sigmas of
               None \<Rightarrow> alloc (replicate (length (h ! fares)) (Fin 0)) h
             | Some s \<Rightarrow> (s, h)) = (sigmas1, h1)"
    by (cases "case sigmas of
               None \<Rightarrow> alloc (replicate (length (h ! fares)) (Fin 0)) h
             | Some s \<Rightarrow> (s, h)") blast
  then have u1: "unchanged h h1"
    by (cases sigmas) (auto simp: alloc_def unchanged_refl unchanged_append)
  show ?thesis
    unfolding EMSRb_MR_st_def s1
    by (simp add: Let_def alloc_def fare_transformation_st_def fill_nan_st_def unchanged_append u1 EMSRb_st_result_unchanged
        split: sum.splits prod.splits)
qed

subsection \<open>The functions on the store compute what the functions on values compute\<close>

lemma EMSRb_loop_st_refines:
  assumes "fares \<noteq> y" and "demands \<noteq> y" and "sigmas \<noteq> y" and "y < length h"
  shows "case EMSRb_loop_st probit fares demands sigmas js y h of
           (Inl e, h') \<Rightarrow>
             EMSRb_loop probit (h ! fares) (h ! demands) (h ! sigmas) js (h ! y) = Inl e
         | (Inr u, h') \<Rightarrow>
             EMSRb_loop probit (h ! fares) (h ! demands) (h ! sigmas) js (h ! y) = Inr (h' ! y)
             \<and> length h' = length h"
  using assms(4)
proof (induction js arbitrary: h)
  case Nil
  show ?case by simp
next
  case (Cons j js)
  show ?case
  proof (cases "EMSRb_body probit (h ! fares) (h ! demands) (h ! sigmas) j (h ! y)")
    case (Inl e)
    then show ?thesis by simp
  next
    case (Inr y')
    from Cons.prems have "y < length (h[y := y'])" by simp
    from Cons.IH [OF this] assms(1-3) Cons.prems Inr show ?thesis
      by (simp split: prod.splits sum.splits)
  qed
qed

lemma EMSRb_deterministic_st_refines:
  "case EMSRb_deterministic_st demands h of
     (res, h') \<Rightarrow> (case res of Inl e \<Rightarrow> False
                   | Inr out \<Rightarrow> out < length h' \<and> EMSRb_deterministic (h ! demands) = Inr (h' ! out))"
  by (simp add: EMSRb_deterministic_st_def EMSRb_deterministic_def alloc_def Let_def
      nth_append)

lemma EMSRb_gaussian_st_refines:
  assumes "fares \<noteq> y" and "demands \<noteq> y" and "sigmas \<noteq> y" and "y < length h"
    and "h ! y = replicate (length (h ! fares) - 1) (Fin 0)"
  shows "case EMSRb_gaussian_st probit fares demands sigmas y h of
           (Inl e, h') \<Rightarrow>
             EMSRb_gaussian probit (h ! fares) (h ! demands) (h ! sigmas) = Inl e
         | (Inr out, h') \<Rightarrow>
             out < length h'
             \<and> EMSRb_gaussian probit (h ! fares) (h ! demands) (h ! sigmas) = Inr (h' ! out)"
proof (cases "EMSRb_loop_st probit fares demands sigmas [1..<length (h ! fares)] y h")
  case (Pair res h1)
  show ?thesis
  proof (cases res)
    case (Inl e)
    with Pair EMSRb_loop_st_refines [OF assms(1-4), where probit = probit and js = "[1..<length (h ! fares)]"] assms(5)
    show ?thesis
      by (simp add: EMSRb_gaussian_st_def EMSRb_gaussian_def EMSRb_levels_def)
  next
    case (Inr u)
    with Pair EMSRb_loop_st_refines [OF assms(1-4), where probit = probit and js = "[1..<length (h ! fares)]"] assms(5)
    have lv: "EMSRb_levels probit (h ! fares) (h ! demands) (h ! sigmas) = Inr (h1 ! y)"
      and len: "length h1 = length h"
      by (simp_all add: EMSRb_levels_def)
    from len assms(4) have y: "y < length h1" by simp
    with Pair Inr lv show ?thesis
      by (simp add: EMSRb_gaussian_st_def EMSRb_gaussian_def alloc_def Let_def nth_append)
  qed
qed

lemma EMSRb_st_refines:
  assumes "fares < length h" and "demands < length h"
    and "case sigmas of None \<Rightarrow> True | Some s \<Rightarrow> s < length h"
  shows "case EMSRb_st probit fares demands sigmas h of
           (Inl e, h') \<Rightarrow>
             EMSRb probit (h ! fares) (h ! demands) (map_option (\<lambda>s. h ! s) sigmas) = Inl e
         | (Inr out, h') \<Rightarrow>
             out < length h'
             \<and> EMSRb probit (h ! fares) (h ! demands) (map_option (\<lambda>s. h ! s) sigmas)
                 = Inr (h' ! out)"
proof (cases "length (h ! fares) = 0")
  case True
  then show ?thesis by (simp add: EMSRb_st_def EMSRb_def)
next
  case False
  let ?h1 = "h @ [replicate (length (h ! fares) - 1) (Fin 0)]"
  have rd: "?h1 ! fares = h ! fares" "?h1 ! demands = h ! demands"
    using assms(1,2) by (simp_all add: nth_append)
  show ?thesis
  proof (cases sigmas)
    case None
    with False EMSRb_deterministic_st_refines [where demands = demands and h = ?h1] rd show ?thesis
      by (simp add: EMSRb_st_def EMSRb_def alloc_def split: prod.splits sum.splits)
  next
    case (Some s)
    with assms(3) have s: "s < length h" by simp
    then have rs: "?h1 ! s = h ! s" by (simp add: nth_append)
    show ?thesis
    proof (cases "np_all_zero (h ! s)")
      case True
      with Some False EMSRb_deterministic_st_refines [where demands = demands and h = ?h1] rd rs show ?thesis
        by (simp add: EMSRb_st_def EMSRb_def alloc_def split: prod.splits sum.splits)
    next
      case nz: False
      have "case EMSRb_gaussian_st probit fares demands s (length h) ?h1 of
           (Inl e, h') \<Rightarrow>
             EMSRb_gaussian probit (?h1 ! fares) (?h1 ! demands) (?h1 ! s) = Inl e
         | (Inr out, h') \<Rightarrow>
             out < length h'
             \<and> EMSRb_gaussian probit (?h1 ! fares) (?h1 ! demands) (?h1 ! s) = Inr (h' ! out)"
        using assms(1,2) s by (intro EMSRb_gaussian_st_refines) (simp_all add: nth_append)
      with Some False nz rd rs show ?thesis
        by (simp add: EMSRb_st_def EMSRb_def alloc_def split: prod.splits sum.splits)
    qed
  qed
qed

lemma EMSRb_MR_st_refines:
  assumes f: "fares < length h" and d: "demands < length h"
    and sg: "case sigmas of None \<Rightarrow> True | Some s \<Rightarrow> s < length h"
  shows "case EMSRb_MR_st probit fare_transformation fares demands sigmas cap h of
           (Inl e, h') \<Rightarrow>
             EMSRb_MR probit fare_transformation (h ! fares) (h ! demands)
               (map_option (\<lambda>s. h ! s) sigmas) cap = Inl e
         | (Inr out, h') \<Rightarrow>
             out < length h'
             \<and> EMSRb_MR probit fare_transformation (h ! fares) (h ! demands)
                 (map_option (\<lambda>s. h ! s) sigmas) cap = Inr (h' ! out)"
proof -
  let ?S1 = "case sigmas of None \<Rightarrow> replicate (length (h ! fares)) (Fin 0) | Some s \<Rightarrow> h ! s"
  obtain sigmas1 h1 where s1: "(case sigmas of
               None \<Rightarrow> alloc (replicate (length (h ! fares)) (Fin 0)) h
             | Some s \<Rightarrow> (s, h)) = (sigmas1, h1)"
    by (cases "case sigmas of
               None \<Rightarrow> alloc (replicate (length (h ! fares)) (Fin 0)) h
             | Some s \<Rightarrow> (s, h)") blast
  have u1: "unchanged h h1" and s1l: "sigmas1 < length h1" and s1v: "h1 ! sigmas1 = ?S1"
    using s1 sg by (cases sigmas; auto simp: alloc_def unchanged_refl unchanged_append)+
  have rd1: "h1 ! fares = h ! fares" "h1 ! demands = h ! demands"
    using unchanged_nth [OF u1] f d by simp_all
  obtain AF AD where ft: "fare_transformation (h ! fares) (h ! demands) cap = (AF, AD)"
    by (cases "fare_transformation (h ! fares) (h ! demands) cap") blast
  let ?idx = "np_where_not_nan AF"
  let ?a = "map (\<lambda>i. AF ! i) ?idx"
  have l13: "length h \<le> length h1"
    using u1 by (simp add: unchanged_def)
  have take_af: "np_take AF ?idx = Inr ?a"
    by (intro np_take_in_range) (simp add: np_where_not_nan_def)
  show ?thesis
  proof (cases "?idx = []")
    case True
    have "EMSRb_MR probit fare_transformation (h ! fares) (h ! demands)
            (map_option (\<lambda>s. h ! s) sigmas) cap = Inr (replicate (length (h ! fares)) (Fin 0))"
      by (rule EMSRb_MR_no_efficient [where fare_transformation = fare_transformation
            and fares = "h ! fares" and demands = "h ! demands" and cap = cap, OF ft True])
    moreover have "EMSRb_MR_st probit fare_transformation fares demands sigmas cap h
            = (Inr (Suc (Suc (Suc (length h1)))), h1 @ [AF, AD, [], replicate (length (h ! fares)) (Fin 0)])"
      using True ft rd1 f l13 unfolding EMSRb_MR_st_def s1
      by (simp add: Let_def alloc_def fare_transformation_st_def fill_nan_st_def nth_append np_take_def)
    ultimately show ?thesis by (simp add: nth_append)
  next
    case ne: False
    show ?thesis
    proof (cases "np_take AD ?idx")
      case (Inl e)
      have "EMSRb_MR probit fare_transformation (h ! fares) (h ! demands)
              (map_option (\<lambda>s. h ! s) sigmas) cap = Inl e"
        using ne ft take_af Inl by (simp add: EMSRb_MR_def Let_def)
      moreover have "fst (EMSRb_MR_st probit fare_transformation fares demands sigmas cap h)
                       = Inl e"
        using ne ft take_af Inl rd1 unfolding EMSRb_MR_st_def s1
        by (simp add: Let_def alloc_def fare_transformation_st_def fill_nan_st_def nth_append)
      ultimately show ?thesis by (auto split: prod.splits)
    next
      case b: (Inr b)
      show ?thesis
      proof (cases "np_take ?S1 ?idx")
        case (Inl e)
        have "EMSRb_MR probit fare_transformation (h ! fares) (h ! demands)
                (map_option (\<lambda>s. h ! s) sigmas) cap = Inl e"
          using ne ft take_af b Inl by (cases sigmas) (simp_all add: EMSRb_MR_def Let_def)
        moreover have "fst (EMSRb_MR_st probit fare_transformation fares demands sigmas cap h)
                         = Inl e"
          using ne ft take_af b Inl rd1 s1l s1v unfolding EMSRb_MR_st_def s1
          by (simp add: Let_def alloc_def fare_transformation_st_def fill_nan_st_def nth_append)
        ultimately show ?thesis by (auto split: prod.splits)
      next
        case c: (Inr c)
        let ?h7 = "h1 @ [AF, AD, ?a, ?a, b, c]"
        have u7: "unchanged h ?h7"
          using u1 by (simp add: unchanged_append)
        obtain res h8 where run: "EMSRb_st probit (Suc (Suc (Suc (length h1)))) (Suc (Suc (Suc (Suc (length h1)))))
                                    (Some (Suc (Suc (Suc (Suc (Suc (length h1))))))) ?h7 = (res, h8)"
          by (cases "EMSRb_st probit (Suc (Suc (Suc (length h1)))) (Suc (Suc (Suc (Suc (length h1)))))
                       (Some (Suc (Suc (Suc (Suc (Suc (length h1))))))) ?h7") blast
        have u8: "unchanged h h8"
          by (rule EMSRb_st_result_unchanged [OF run u7])
        have rd8: "h8 ! fares = h ! fares"
          using unchanged_nth [OF u8 f] .
        have inner: "case res of
             Inl e \<Rightarrow> EMSRb probit ?a b (Some c) = Inl e
           | Inr out \<Rightarrow> out < length h8 \<and> EMSRb probit ?a b (Some c) = Inr (h8 ! out)"
          using EMSRb_st_refines [where fares = "Suc (Suc (Suc (length h1)))" and demands = "Suc (Suc (Suc (Suc (length h1))))"
              and sigmas = "Some (Suc (Suc (Suc (Suc (Suc (length h1))))))" and h = ?h7 and probit = probit] run
          by (cases res) (simp_all add: nth_append)
        have pure: "EMSRb_MR probit fare_transformation (h ! fares) (h ! demands)
                      (map_option (\<lambda>s. h ! s) sigmas) cap
                    = (case EMSRb probit ?a b (Some c) of
                         Inl e \<Rightarrow> Inl e
                       | Inr pl \<Rightarrow> Inr (fill_nan (length (h ! fares)) ?idx pl))"
          using ne ft take_af b c by (cases sigmas) (simp_all add: EMSRb_MR_def Let_def)
        have st: "EMSRb_MR_st probit fare_transformation fares demands sigmas cap h
                    = (case res of
                         Inl e \<Rightarrow> (Inl e, h8)
                       | Inr pl \<Rightarrow> (Inr (length h8),
                                     h8 @ [fill_nan (length (h ! fares)) ?idx (h8 ! pl)]))"
          using ne b c ft take_af rd1 s1l s1v run rd8
          unfolding EMSRb_MR_st_def s1
          by (simp add: Let_def alloc_def fare_transformation_st_def fill_nan_st_def nth_append split: sum.splits)
        from inner show ?thesis
          unfolding pure st by (cases res) (simp_all add: nth_append)
      qed
    qed
  qed
qed

subsection \<open>The caller's arrays after a call\<close>

text \<open>
  Claim C9. For references \<open>fares\<close>, \<open>demands\<close> and \<open>sigmas\<close> (when given) into a
  store, a call of \<open>EMSRb\<close> or of \<open>EMSRb_MR\<close>, whether it returns or raises, leaves
  every array of that store with its content, the three arguments among them:
  the calls only add arrays to the store and write to arrays they have added.
\<close>

theorem arguments_not_mutated:
  assumes "fares < length h" and "demands < length h"
    and "case sigmas of None \<Rightarrow> True | Some s \<Rightarrow> s < length h"
    and "h1 = snd (EMSRb_st probit fares demands sigmas h)"
    and "h2 = snd (EMSRb_MR_st probit fare_transformation fares demands sigmas cap h)"
  shows "unchanged h h1 \<and> h1 ! fares = h ! fares \<and> h1 ! demands = h ! demands
           \<and> (case sigmas of None \<Rightarrow> True | Some s \<Rightarrow> h1 ! s = h ! s)
         \<and> unchanged h h2 \<and> h2 ! fares = h ! fares \<and> h2 ! demands = h ! demands
           \<and> (case sigmas of None \<Rightarrow> True | Some s \<Rightarrow> h2 ! s = h ! s)"
proof -
  have u1: "unchanged h h1"
    unfolding assms(4) by (rule EMSRb_st_unchanged)
  have u2: "unchanged h h2"
    unfolding assms(5) by (rule EMSRb_MR_st_unchanged)
  have s1: "case sigmas of None \<Rightarrow> True | Some s \<Rightarrow> h1 ! s = h ! s"
    using assms(3) unchanged_nth [OF u1] by (cases sigmas) simp_all
  have s2: "case sigmas of None \<Rightarrow> True | Some s \<Rightarrow> h2 ! s = h ! s"
    using assms(3) unchanged_nth [OF u2] by (cases sigmas) simp_all
  from u1 u2 s1 s2 unchanged_nth [OF u1 assms(1)] unchanged_nth [OF u1 assms(2)]
    unchanged_nth [OF u2 assms(1)] unchanged_nth [OF u2 assms(2)]
  show ?thesis by blast
qed

theorem arguments_not_mutated_witness:
  "(0::nat) < length [[Fin 100, Fin 75, Fin 50], [Fin 10, Fin 20, Fin 30]]
   \<and> (1::nat) < length [[Fin 100, Fin 75, Fin 50], [Fin 10, Fin 20, Fin 30]]
   \<and> EMSRb_st probit_stub 0 1 None [[Fin 100, Fin 75, Fin 50], [Fin 10, Fin 20, Fin 30]]
       = (Inr 5, [[Fin 100, Fin 75, Fin 50], [Fin 10, Fin 20, Fin 30],
                  [Fin 0, Fin 0], [Fin 10, Fin 30, Fin 60], [Fin 10, Fin 30],
                  [Fin 0, Fin 10, Fin 30]])
   \<and> EMSRb_MR_st probit_stub (ft_mask [True, False, True]) 0 1 None None
         [[Fin 100, Fin 75, Fin 50], [Fin 10, Fin 20, Fin 30]]
       = (Inr 13, [[Fin 100, Fin 75, Fin 50], [Fin 10, Fin 20, Fin 30],
                   [Fin 0, Fin 0, Fin 0], [Fin 100, NaN, Fin 50], [Fin 10, Fin 20, Fin 30],
                   [Fin 100, Fin 50], [Fin 100, Fin 50], [Fin 10, Fin 30], [Fin 0, Fin 0],
                   [Fin 0], [Fin 10, Fin 40], [Fin 10], [Fin 0, Fin 10],
                   [Fin 0, Fin 0, Fin 10]])
   \<and> snd (EMSRb_st probit_stub 0 1 None [[Fin 100, Fin 75, Fin 50], [Fin 10, Fin 20, Fin 30]])
         ! 0 = [Fin 100, Fin 75, Fin 50]
   \<and> snd (EMSRb_MR_st probit_stub (ft_mask [True, False, True]) 0 1 None None
         [[Fin 100, Fin 75, Fin 50], [Fin 10, Fin 20, Fin 30]]) ! 1 = [Fin 10, Fin 20, Fin 30]"
proof -
  let ?h = "[[Fin 100, Fin 75, Fin 50], [Fin 10, Fin 20, Fin 30]]"
  have a: "(0::nat) < length ?h" "(1::nat) < length ?h"
    and s: "case None :: nat option of None \<Rightarrow> True | Some s \<Rightarrow> s < length ?h"
    by simp_all
  have r1: "EMSRb_st probit_stub 0 1 None ?h
       = (Inr 5, [[Fin 100, Fin 75, Fin 50], [Fin 10, Fin 20, Fin 30],
                  [Fin 0, Fin 0], [Fin 10, Fin 30, Fin 60], [Fin 10, Fin 30],
                  [Fin 0, Fin 10, Fin 30]])"
    by (simp add: EMSRb_st_def EMSRb_deterministic_st_def alloc_def np_round_def rint_def
        Let_def nth_append)
  have r2: "EMSRb_MR_st probit_stub (ft_mask [True, False, True]) 0 1 None None ?h
       = (Inr 13, [[Fin 100, Fin 75, Fin 50], [Fin 10, Fin 20, Fin 30],
                   [Fin 0, Fin 0, Fin 0], [Fin 100, NaN, Fin 50], [Fin 10, Fin 20, Fin 30],
                   [Fin 100, Fin 50], [Fin 100, Fin 50], [Fin 10, Fin 30], [Fin 0, Fin 0],
                   [Fin 0], [Fin 10, Fin 40], [Fin 10], [Fin 0, Fin 10],
                   [Fin 0, Fin 0, Fin 10]])"
    by (simp add: EMSRb_MR_st_def EMSRb_st_def EMSRb_deterministic_st_def
        fare_transformation_st_def fill_nan_st_def alloc_def ft_mask_def np_where_not_nan_def
        np_take_def fill_nan_def np_all_zero_def np_round_def rint_def Let_def nth_append)
  from arguments_not_mutated [OF a s refl refl, of probit_stub "ft_mask [True, False, True]" None]
  have f: "snd (EMSRb_st probit_stub 0 1 None ?h) ! 0 = ?h ! 0"
    and d: "snd (EMSRb_MR_st probit_stub (ft_mask [True, False, True]) 0 1 None None ?h) ! 1
              = ?h ! 1"
    by blast+
  have f': "snd (EMSRb_st probit_stub 0 1 None ?h) ! 0 = [Fin 100, Fin 75, Fin 50]"
    using f by (simp only: nth_Cons_0)
  have d': "snd (EMSRb_MR_st probit_stub (ft_mask [True, False, True]) 0 1 None None ?h) ! 1
              = [Fin 10, Fin 20, Fin 30]"
    using d by (simp only: nth_Cons_Suc nth_Cons_0 One_nat_def)
  show ?thesis by (intro conjI) (fact a r1 r2 f' d')+
qed

end
